theory Spec2Isabelle
  imports Main "HOL-Library.AList"
begin

section \<open>Python values that travel on the wire\<close>

text \<open>
  The Python values that \<^verbatim>\<open>json.dumps\<close> accepts: None, booleans, integers, floats,
  strings, lists, tuples and dictionaries with string keys. \<^verbatim>\<open>json.loads\<close> returns all
  of them but tuples. A dictionary is an association list in insertion order; a
  dictionary with a key that is not a string is not represented.

  A float is finite, infinite or not a number. \<open>Finite s m e\<close> is the float of magnitude
  \<open>m * 2 ^ e\<close>, negative when \<open>s\<close> holds; a float has one such term when \<open>m\<close> is odd, or
  zero with \<open>e = 0\<close>. \<open>Infinite s\<close> is the infinity of that sign.
\<close>

datatype pyfloat = Finite bool nat int | Infinite bool | NaN

fun is_finite :: "pyfloat \<Rightarrow> bool" where
  "is_finite (Finite s m e) = True"
| "is_finite _ = False"

datatype json =
    JNull
  | JBool bool
  | JInt int
  | JFloat pyfloat
  | JStr string
  | JList "json list"
  | JTuple "json list"
  | JDict "(string \<times> json) list"

datatype py_error = ValueError | KeyError | TypeError | AttributeError

text \<open>Python truthiness, as used by \<^verbatim>\<open>x or y\<close>, \<^verbatim>\<open>if x\<close> and \<^verbatim>\<open>not x\<close>.\<close>

fun float_truthy :: "pyfloat \<Rightarrow> bool" where
  "float_truthy (Finite s m e) = (m \<noteq> 0)"
| "float_truthy _ = True"

fun truthy :: "json \<Rightarrow> bool" where
  "truthy JNull = False"
| "truthy (JBool b) = b"
| "truthy (JInt i) = (i \<noteq> 0)"
| "truthy (JFloat x) = float_truthy x"
| "truthy (JStr s) = (s \<noteq> [])"
| "truthy (JList xs) = (xs \<noteq> [])"
| "truthy (JTuple xs) = (xs \<noteq> [])"
| "truthy (JDict kvs) = (kvs \<noteq> [])"

text \<open>\<^verbatim>\<open>raw[key]\<close> with a string key: only a dictionary can be subscripted by a string.\<close>

fun subscript :: "json \<Rightarrow> string \<Rightarrow> py_error + json" where
  "subscript (JDict kvs) k = (case map_of kvs k of None \<Rightarrow> Inl KeyError | Some v \<Rightarrow> Inr v)"
| "subscript _ k = Inl TypeError"

text \<open>\<^verbatim>\<open>d.get(key, default)\<close>: only a dictionary has the method.\<close>

fun dict_get :: "json \<Rightarrow> string \<Rightarrow> json \<Rightarrow> py_error + json" where
  "dict_get (JDict kvs) k dflt = (case map_of kvs k of None \<Rightarrow> Inr dflt | Some v \<Rightarrow> Inr v)"
| "dict_get _ k dflt = Inl AttributeError"

section \<open>protocol.py: messages\<close>

datatype MessageType = COMMAND | RESPONSE | EVENT

fun MessageType_value :: "MessageType \<Rightarrow> string" where
  "MessageType_value COMMAND = ''command''"
| "MessageType_value RESPONSE = ''response''"
| "MessageType_value EVENT = ''event''"

text \<open>The enum call \<^verbatim>\<open>MessageType(v)\<close>: the member whose value is \<open>v\<close>, or ValueError.\<close>

fun MessageType_of :: "json \<Rightarrow> py_error + MessageType" where
  "MessageType_of (JStr s) =
     (if s = ''command'' then Inr COMMAND
      else if s = ''response'' then Inr RESPONSE
      else if s = ''event'' then Inr EVENT
      else Inl ValueError)"
| "MessageType_of _ = Inl ValueError"

record Message =
  msg_type :: MessageType
  msg_name :: json
  msg_data :: json

definition to_dict :: "Message \<Rightarrow> json" where
  "to_dict m =
     JDict [(''type'', JStr (MessageType_value (msg_type m))),
            (''name'', msg_name m),
            (''data'', msg_data m)]"

text \<open>
  The handler of \<^verbatim>\<open>from_dict\<close>: KeyError, ValueError and TypeError become ValueError,
  anything else propagates.
\<close>

fun from_dict_except :: "py_error \<Rightarrow> py_error" where
  "from_dict_except KeyError = ValueError"
| "from_dict_except ValueError = ValueError"
| "from_dict_except TypeError = ValueError"
| "from_dict_except e = e"

definition from_dict :: "json \<Rightarrow> py_error + Message" where
  "from_dict raw =
     (case subscript raw ''type'' of
        Inl e \<Rightarrow> Inl (from_dict_except e)
      | Inr t \<Rightarrow>
     (case MessageType_of t of
        Inl e \<Rightarrow> Inl (from_dict_except e)
      | Inr mtype \<Rightarrow>
     (case subscript raw ''name'' of
        Inl e \<Rightarrow> Inl (from_dict_except e)
      | Inr name \<Rightarrow>
     (case dict_get raw ''data'' (JDict []) of
        Inl e \<Rightarrow> Inl (from_dict_except e)
      | Inr d \<Rightarrow>
          Inr \<lparr>msg_type = mtype, msg_name = name,
               msg_data = (if truthy d then d else JDict [])\<rparr>))))"

section \<open>protocol.py: the message catalog\<close>

text \<open>
  The constructors take any JSON value where the source takes any object. \<open>JNull\<close>
  stands for \<^verbatim>\<open>None\<close>, also as the default of an optional argument (the default
  \<^verbatim>\<open>port=6667\<close> of \<^verbatim>\<open>cmd_connect\<close> is \<open>JInt 6667\<close>, passed by the caller). A
  dictionary argument \<^verbatim>\<open>data=None\<close> is an optional association list.
\<close>

text \<open>\<^verbatim>\<open>base.update(data)\<close> and \<^verbatim>\<open>{..., **data}\<close>: later keys overwrite in place.\<close>

definition dict_update :: "(string \<times> json) list \<Rightarrow> (string \<times> json) list \<Rightarrow> (string \<times> json) list" where
  "dict_update base extra = fold (\<lambda>(k, v). AList.update k v) extra base"

definition cmd_connect :: "json \<Rightarrow> json \<Rightarrow> Message" where
  "cmd_connect server port =
     \<lparr>msg_type = COMMAND, msg_name = JStr ''connect'',
      msg_data = JDict [(''server'', server), (''port'', port)]\<rparr>"

definition cmd_nick :: "json \<Rightarrow> Message" where
  "cmd_nick nickname =
     \<lparr>msg_type = COMMAND, msg_name = JStr ''nick'',
      msg_data = JDict [(''nickname'', nickname)]\<rparr>"

definition cmd_list :: "Message" where
  "cmd_list = \<lparr>msg_type = COMMAND, msg_name = JStr ''list'', msg_data = JDict []\<rparr>"

definition cmd_join :: "json \<Rightarrow> Message" where
  "cmd_join channel =
     \<lparr>msg_type = COMMAND, msg_name = JStr ''join'',
      msg_data = JDict [(''channel'', channel)]\<rparr>"

definition cmd_leave :: "json \<Rightarrow> Message" where
  "cmd_leave channel =
     \<lparr>msg_type = COMMAND, msg_name = JStr ''leave'',
      msg_data = JDict (if truthy channel then [(''channel'', channel)] else [])\<rparr>"

definition cmd_quit :: "json \<Rightarrow> Message" where
  "cmd_quit reason =
     \<lparr>msg_type = COMMAND, msg_name = JStr ''quit'',
      msg_data = JDict (if truthy reason then [(''reason'', reason)] else [])\<rparr>"

definition cmd_help :: "Message" where
  "cmd_help = \<lparr>msg_type = COMMAND, msg_name = JStr ''help'', msg_data = JDict []\<rparr>"

definition cmd_msg :: "json \<Rightarrow> json \<Rightarrow> Message" where
  "cmd_msg text channel =
     \<lparr>msg_type = COMMAND, msg_name = JStr ''msg'',
      msg_data = JDict ([(''text'', text)] @
                        (if truthy channel then [(''channel'', channel)] else []))\<rparr>"

definition resp_ok :: "json \<Rightarrow> (string \<times> json) list option \<Rightarrow> Message" where
  "resp_ok command_name data =
     \<lparr>msg_type = RESPONSE, msg_name = command_name,
      msg_data = JDict (dict_update [(''status'', JStr ''ok'')]
                          (case data of None \<Rightarrow> [] | Some d \<Rightarrow> d))\<rparr>"

definition resp_error :: "json \<Rightarrow> json \<Rightarrow> (string \<times> json) list option \<Rightarrow> Message" where
  "resp_error command_name error_msg data =
     \<lparr>msg_type = RESPONSE, msg_name = command_name,
      msg_data = JDict (dict_update [(''status'', JStr ''error''), (''error'', error_msg)]
                          (case data of None \<Rightarrow> [] | Some d \<Rightarrow> d))\<rparr>"

definition resp_connected :: "json \<Rightarrow> json \<Rightarrow> json \<Rightarrow> Message" where
  "resp_connected server_name client_id motd =
     resp_ok (JStr ''connect'')
       (Some ([(''server'', server_name), (''client_id'', client_id)] @
              (if truthy motd then [(''motd'', motd)] else [])))"

definition resp_list_channels :: "json \<Rightarrow> Message" where
  "resp_list_channels chans = resp_ok (JStr ''list'') (Some [(''channels'', chans)])"

definition resp_help :: "json \<Rightarrow> Message" where
  "resp_help commands = resp_ok (JStr ''help'') (Some [(''commands'', commands)])"

text \<open>
  \<open>now\<close> is the value of \<^verbatim>\<open>time.time()\<close> at the call. The payload first gets
  \<^verbatim>\<open>timestamp or time.time()\<close>, then \<^verbatim>\<open>timestamp\<close> itself when it is not None.
\<close>

definition evt_message :: "json \<Rightarrow> json \<Rightarrow> json \<Rightarrow> json \<Rightarrow> json \<Rightarrow> Message" where
  "evt_message channel sender text timestamp now =
     \<lparr>msg_type = EVENT, msg_name = JStr ''message'',
      msg_data = JDict
        (let payload = [(''channel'', channel), (''from'', sender), (''text'', text),
                        (''timestamp'', if truthy timestamp then timestamp else now)]
         in if timestamp \<noteq> JNull then AList.update ''timestamp'' timestamp payload
            else payload)\<rparr>"

definition evt_user_joined :: "json \<Rightarrow> json \<Rightarrow> Message" where
  "evt_user_joined channel username =
     \<lparr>msg_type = EVENT, msg_name = JStr ''user_joined'',
      msg_data = JDict [(''channel'', channel), (''user'', username)]\<rparr>"

definition evt_user_left :: "json \<Rightarrow> json \<Rightarrow> Message" where
  "evt_user_left channel username =
     \<lparr>msg_type = EVENT, msg_name = JStr ''user_left'',
      msg_data = JDict [(''channel'', channel), (''user'', username)]\<rparr>"

definition evt_server_shutdown :: "json \<Rightarrow> Message" where
  "evt_server_shutdown reason =
     \<lparr>msg_type = EVENT, msg_name = JStr ''server_shutdown'',
      msg_data = JDict (if truthy reason then [(''reason'', reason)] else [])\<rparr>"

section \<open>protocol.py: wire encoding and decoding\<close>

text \<open>
  \<^verbatim>\<open>json.dumps\<close> and \<^verbatim>\<open>json.loads\<close> belong to the standard library, not to the
  repository: \<open>encode\<close> and \<open>decode\<close> take them as parameters. \<open>loads\<close> returns \<open>None\<close>
  where the library raises JSONDecodeError.
\<close>

definition encode :: "(json \<Rightarrow> string) \<Rightarrow> Message \<Rightarrow> string" where
  "encode dumps m = dumps (to_dict m) @ [CHR 0x0A]"

definition decode :: "(string \<Rightarrow> json option) \<Rightarrow> string \<Rightarrow> py_error + Message" where
  "decode loads line =
     (case loads line of
        None \<Rightarrow> Inl ValueError
      | Some raw \<Rightarrow> from_dict raw)"



section \<open>Python strings\<close>

text \<open>
  A string is a list of characters with code points below 256. \<^verbatim>\<open>str.strip()\<close>
  removes the characters for which \<^verbatim>\<open>str.isspace()\<close> holds from both ends, and
  \<^verbatim>\<open>str.isalnum()\<close> holds for a non-empty string of letters, digits and numeric
  characters; both tables are those of Unicode on this range.
\<close>

definition isspace_char :: "char \<Rightarrow> bool" where
  "isspace_char c =
     (let n = (of_char c :: nat)
      in (9 \<le> n \<and> n \<le> 13) \<or> (28 \<le> n \<and> n \<le> 32) \<or> n = 133 \<or> n = 160)"

definition strip :: "string \<Rightarrow> string" where
  "strip s = rev (dropWhile isspace_char (rev (dropWhile isspace_char s)))"

definition isalnum_char :: "char \<Rightarrow> bool" where
  "isalnum_char c =
     (let n = (of_char c :: nat)
      in (48 \<le> n \<and> n \<le> 57) \<or> (65 \<le> n \<and> n \<le> 90) \<or> (97 \<le> n \<and> n \<le> 122)
         \<or> n = 170 \<or> n = 178 \<or> n = 179 \<or> n = 181 \<or> n = 185 \<or> n = 186
         \<or> (188 \<le> n \<and> n \<le> 190)
         \<or> (192 \<le> n \<and> n \<noteq> 215 \<and> n \<noteq> 247))"

definition isalnum :: "string \<Rightarrow> bool" where
  "isalnum s = (s \<noteq> [] \<and> list_all isalnum_char s)"

text \<open>\<^verbatim>\<open>s.replace('_', '')\<close>\<close>

definition remove_underscores :: "string \<Rightarrow> string" where
  "remove_underscores s = filter (\<lambda>c. c \<noteq> CHR ''_'') s"

definition startswith_hash :: "string \<Rightarrow> bool" where
  "startswith_hash s = (case s of [] \<Rightarrow> False | c # _ \<Rightarrow> c = CHR ''#'')"

text \<open>\<^verbatim>\<open>v.strip()\<close> on whatever \<^verbatim>\<open>data.get\<close> returned: only a string has the method.\<close>

fun py_strip :: "json \<Rightarrow> py_error + string" where
  "py_strip (JStr s) = Inr (strip s)"
| "py_strip _ = Inl AttributeError"

text \<open>
  \<^verbatim>\<open>channel in client_channels\<close> on a set of strings: a list or a dictionary cannot be
  hashed, nor can a tuple that holds one; any other value that is not a string is not in
  the set. A member is returned as the string it is.
\<close>

fun hashable :: "json \<Rightarrow> bool" where
  "hashable (JList xs) = False"
| "hashable (JDict kvs) = False"
| "hashable (JTuple xs) = list_all hashable xs"
| "hashable _ = True"

fun in_channels :: "json \<Rightarrow> string list \<Rightarrow> py_error + string option" where
  "in_channels (JStr s) cs = Inr (if s \<in> set cs then Some s else None)"
| "in_channels (JList xs) cs = Inl TypeError"
| "in_channels (JDict kvs) cs = Inl TypeError"
| "in_channels (JTuple xs) cs = (if hashable (JTuple xs) then Inr None else Inl TypeError)"
| "in_channels _ cs = Inr None"

text \<open>\<^verbatim>\<open>str(n)\<close> for a port number.\<close>

fun str_nat :: "nat \<Rightarrow> string" where
  "str_nat n =
     (if n < 10 then [''0123456789'' ! n]
      else str_nat (n div 10) @ [''0123456789'' ! (n mod 10)])"

declare str_nat.simps [simp del]

section \<open>The JSON codec of the standard library\<close>

text \<open>
  \<^verbatim>\<open>float.__repr__\<close> and \<^verbatim>\<open>float\<close> are parameters of the codec, \<open>float_repr\<close> and
  \<open>float_of\<close>: the first writes a finite float as the shortest decimal text that reads
  back as the same float, the second reads a decimal text as the nearest float.

  \<^verbatim>\<open>json.dumps(obj, separators=(",", ":"))\<close> with the default \<^verbatim>\<open>ensure_ascii\<close> and
  \<^verbatim>\<open>allow_nan\<close>: no whitespace, every character of a string outside the printable ASCII
  range written as an escape, a tuple written as a list, and the floats that are not
  finite written as \<^verbatim>\<open>NaN\<close>, \<^verbatim>\<open>Infinity\<close> and \<^verbatim>\<open>-Infinity\<close>.
\<close>

definition hex_digit :: "nat \<Rightarrow> char" where
  "hex_digit d = ''0123456789abcdef'' ! d"

definition escape_char :: "char \<Rightarrow> string" where
  "escape_char c =
     (if c = CHR 0x22 then [CHR 0x5C, CHR 0x22]
      else if c = CHR 0x5C then [CHR 0x5C, CHR 0x5C]
      else if c = CHR 0x0A then [CHR 0x5C, CHR ''n'']
      else if c = CHR 0x0D then [CHR 0x5C, CHR ''r'']
      else if c = CHR 0x09 then [CHR 0x5C, CHR ''t'']
      else if c = CHR 0x08 then [CHR 0x5C, CHR ''b'']
      else if c = CHR 0x0C then [CHR 0x5C, CHR ''f'']
      else if (of_char c :: nat) < 32 \<or> 126 < (of_char c :: nat)
      then [CHR 0x5C, CHR ''u'', CHR ''0'', CHR ''0'',
            hex_digit ((of_char c :: nat) div 16), hex_digit ((of_char c :: nat) mod 16)]
      else [c])"

definition dumps_str :: "string \<Rightarrow> string" where
  "dumps_str s = CHR 0x22 # concat (map escape_char s) @ [CHR 0x22]"

definition dumps_int :: "int \<Rightarrow> string" where
  "dumps_int i = (if i < 0 then CHR ''-'' # str_nat (nat (- i)) else str_nat (nat i))"

fun dumps_float :: "(pyfloat \<Rightarrow> string) \<Rightarrow> pyfloat \<Rightarrow> string" where
  "dumps_float float_repr NaN = ''NaN''"
| "dumps_float float_repr (Infinite False) = ''Infinity''"
| "dumps_float float_repr (Infinite True) = ''-Infinity''"
| "dumps_float float_repr (Finite s m e) = float_repr (Finite s m e)"

fun join_comma :: "string list \<Rightarrow> string" where
  "join_comma [] = []"
| "join_comma [x] = x"
| "join_comma (x # xs) = x @ CHR '','' # join_comma xs"

primrec json_dumps :: "(pyfloat \<Rightarrow> string) \<Rightarrow> json \<Rightarrow> string" where
  "json_dumps float_repr JNull = ''null''"
| "json_dumps float_repr (JBool b) = (if b then ''true'' else ''false'')"
| "json_dumps float_repr (JInt i) = dumps_int i"
| "json_dumps float_repr (JFloat x) = dumps_float float_repr x"
| "json_dumps float_repr (JStr s) = dumps_str s"
| "json_dumps float_repr (JList xs) =
     CHR ''['' # join_comma (map (json_dumps float_repr) xs) @ [CHR '']'']"
| "json_dumps float_repr (JTuple xs) =
     CHR ''['' # join_comma (map (json_dumps float_repr) xs) @ [CHR '']'']"
| "json_dumps float_repr (JDict kvs) =
     CHR ''{'' # join_comma (map (\<lambda>(k, s). dumps_str k @ CHR '':'' # s)
                               (map (map_prod id (json_dumps float_repr)) kvs)) @ [CHR ''}'']"

text \<open>
  \<^verbatim>\<open>json.loads\<close>, as a recursive descent over the text. Whitespace is skipped where the
  library skips it, a string may not contain a raw control character, and a key that
  occurs twice keeps its first position and its last value.

  A text is read as a value or refused. \<open>JSONDecodeError\<close> is the exception of the
  library. \<open>NotRepresented\<close> is not an answer of the library: the text holds an escape
  above \<^verbatim>\<open>\u00ff\<close>, a character that the strings of the model do not have, and the model
  says nothing about what the library returns. \<open>OutOfFuel\<close> says that the bound on the
  recursion was reached; \<open>json_loads\<close> sets the bound from the length of the text, and
  \<open>json_loads_fuel\<close> below proves that it is never reached.
\<close>

datatype refusal = JSONDecodeError | NotRepresented | OutOfFuel

definition is_ws :: "char \<Rightarrow> bool" where
  "is_ws c = (c = CHR '' '' \<or> c = CHR 0x09 \<or> c = CHR 0x0A \<or> c = CHR 0x0D)"

definition skip_ws :: "string \<Rightarrow> string" where
  "skip_ws s = dropWhile is_ws s"

definition is_digit :: "char \<Rightarrow> bool" where
  "is_digit c = (48 \<le> (of_char c :: nat) \<and> (of_char c :: nat) \<le> 57)"

definition digit_val :: "char \<Rightarrow> nat" where
  "digit_val c = of_char c - 48"

definition nat_of_digits :: "string \<Rightarrow> nat" where
  "nat_of_digits ds = fold (\<lambda>c n. 10 * n + digit_val c) ds 0"

definition hex_val :: "char \<Rightarrow> nat option" where
  "hex_val c =
     (let n = (of_char c :: nat)
      in if 48 \<le> n \<and> n \<le> 57 then Some (n - 48)
         else if 97 \<le> n \<and> n \<le> 102 then Some (n - 87)
         else if 65 \<le> n \<and> n \<le> 70 then Some (n - 55)
         else None)"

definition hex4 :: "char \<Rightarrow> char \<Rightarrow> char \<Rightarrow> char \<Rightarrow> nat option" where
  "hex4 a b c d =
     (case (hex_val a, hex_val b, hex_val c, hex_val d) of
        (Some w, Some x, Some y, Some z) \<Rightarrow> Some (((w * 16 + x) * 16 + y) * 16 + z)
      | _ \<Rightarrow> None)"

definition unescape :: "char \<Rightarrow> char option" where
  "unescape e =
     (if e = CHR 0x22 then Some (CHR 0x22)
      else if e = CHR 0x5C then Some (CHR 0x5C)
      else if e = CHR ''/'' then Some (CHR ''/'')
      else if e = CHR ''b'' then Some (CHR 0x08)
      else if e = CHR ''f'' then Some (CHR 0x0C)
      else if e = CHR ''n'' then Some (CHR 0x0A)
      else if e = CHR ''r'' then Some (CHR 0x0D)
      else if e = CHR ''t'' then Some (CHR 0x09)
      else None)"

fun parse_string :: "string \<Rightarrow> string \<Rightarrow> refusal + (string \<times> string)" where
  "parse_string [] acc = Inl JSONDecodeError"
| "parse_string (c # cs) acc =
     (if c = CHR 0x22 then Inr (acc, cs)
      else if c = CHR 0x5C then
        (case cs of
           [] \<Rightarrow> Inl JSONDecodeError
         | e # cs1 \<Rightarrow>
             if e = CHR ''u'' then
               (case cs1 of
                  h1 # h2 # h3 # h4 # cs2 \<Rightarrow>
                    (case hex4 h1 h2 h3 h4 of
                       None \<Rightarrow> Inl JSONDecodeError
                     | Some n \<Rightarrow>
                         if n < 256 then parse_string cs2 (acc @ [char_of n])
                         else Inl NotRepresented)
                | _ \<Rightarrow> Inl JSONDecodeError)
             else
               (case unescape e of
                  None \<Rightarrow> Inl JSONDecodeError
                | Some x \<Rightarrow> parse_string cs1 (acc @ [x])))
      else if (of_char c :: nat) < 32 then Inl JSONDecodeError
      else parse_string cs (acc @ [c]))"

text \<open>
  A number is matched by the pattern
  \<^verbatim>\<open>(-?(?:0|[1-9][0-9]*))(\.[0-9]+)?([eE][-+]?[0-9]+)?\<close>: an integer part, an optional
  fraction and an optional exponent. With a fraction or an exponent the text is handed to
  \<^verbatim>\<open>float\<close>, else to \<^verbatim>\<open>int\<close>.
\<close>

definition scan_digits :: "string \<Rightarrow> string \<times> string" where
  "scan_digits s = (takeWhile is_digit s, dropWhile is_digit s)"

definition scan_unsigned :: "string \<Rightarrow> (string \<times> string) option" where
  "scan_unsigned s =
     (case s of
        [] \<Rightarrow> None
      | d # r \<Rightarrow>
          if d = CHR ''0'' then Some ([d], r)
          else if is_digit d then Some (scan_digits s)
          else None)"

definition scan_int :: "string \<Rightarrow> (string \<times> string) option" where
  "scan_int s =
     (case s of
        [] \<Rightarrow> None
      | c # r \<Rightarrow>
          if c = CHR ''-'' then
            (case scan_unsigned r of None \<Rightarrow> None | Some (i, r1) \<Rightarrow> Some (c # i, r1))
          else scan_unsigned s)"

definition scan_frac :: "string \<Rightarrow> string \<times> string" where
  "scan_frac s =
     (case s of
        c # d # r \<Rightarrow>
          if c = CHR ''.'' \<and> is_digit d
          then (case scan_digits (d # r) of (ds, r1) \<Rightarrow> (c # ds, r1))
          else ([], s)
      | _ \<Rightarrow> ([], s))"

definition scan_exp_digits :: "string \<Rightarrow> (string \<times> string) option" where
  "scan_exp_digits s =
     (case s of
        [] \<Rightarrow> None
      | x # r \<Rightarrow>
          if x = CHR ''+'' \<or> x = CHR ''-'' then
            (case r of
               [] \<Rightarrow> None
             | d # _ \<Rightarrow>
                 if is_digit d then (case scan_digits r of (ds, r1) \<Rightarrow> Some (x # ds, r1))
                 else None)
          else if is_digit x then Some (scan_digits s)
          else None)"

definition scan_exp :: "string \<Rightarrow> string \<times> string" where
  "scan_exp s =
     (case s of
        [] \<Rightarrow> ([], s)
      | c # r \<Rightarrow>
          if c = CHR ''e'' \<or> c = CHR ''E'' then
            (case scan_exp_digits r of None \<Rightarrow> ([], s) | Some (t, r1) \<Rightarrow> (c # t, r1))
          else ([], s))"

definition int_of_text :: "string \<Rightarrow> int" where
  "int_of_text t =
     (case t of
        [] \<Rightarrow> 0
      | c # ds \<Rightarrow> if c = CHR ''-'' then - int (nat_of_digits ds) else int (nat_of_digits t))"

definition scan_number :: "string \<Rightarrow> (string \<times> string \<times> string \<times> string) option" where
  "scan_number s =
     (case scan_int s of
        None \<Rightarrow> None
      | Some (i, r1) \<Rightarrow>
          (case scan_frac r1 of (f, r2) \<Rightarrow>
          (case scan_exp r2 of (e, r3) \<Rightarrow> Some (i, f, e, r3))))"

definition parse_number :: "(string \<Rightarrow> pyfloat) \<Rightarrow> string \<Rightarrow> (json \<times> string) option" where
  "parse_number float_of s =
     (case scan_number s of
        None \<Rightarrow> None
      | Some (i, f, e, r) \<Rightarrow>
          if f = [] \<and> e = [] then Some (JInt (int_of_text i), r)
          else Some (JFloat (float_of (i @ f @ e)), r))"

definition parse_constant :: "(string \<Rightarrow> pyfloat) \<Rightarrow> string \<Rightarrow> refusal + (json \<times> string)" where
  "parse_constant float_of s =
     (if take 3 s = ''NaN'' then Inr (JFloat (float_of ''nan''), drop 3 s)
      else if take 8 s = ''Infinity'' then Inr (JFloat (float_of ''inf''), drop 8 s)
      else if take 9 s = ''-Infinity'' then Inr (JFloat (float_of ''-inf''), drop 9 s)
      else Inl JSONDecodeError)"

definition dict_of_pairs :: "(string \<times> json) list \<Rightarrow> (string \<times> json) list" where
  "dict_of_pairs ps = fold (\<lambda>(k, v). AList.update k v) ps []"

fun parse_value :: "(string \<Rightarrow> pyfloat) \<Rightarrow> nat \<Rightarrow> string \<Rightarrow> refusal + (json \<times> string)"
  and parse_elems :: "(string \<Rightarrow> pyfloat) \<Rightarrow> nat \<Rightarrow> string \<Rightarrow> refusal + (json list \<times> string)"
  and parse_members ::
    "(string \<Rightarrow> pyfloat) \<Rightarrow> nat \<Rightarrow> string \<Rightarrow> refusal + ((string \<times> json) list \<times> string)"
where
  "parse_value float_of 0 s = Inl OutOfFuel"
| "parse_value float_of (Suc n) s =
     (case s of
        [] \<Rightarrow> Inl JSONDecodeError
      | c # r \<Rightarrow>
          if c = CHR 0x22 then
            (case parse_string r [] of Inl e \<Rightarrow> Inl e | Inr (x, r1) \<Rightarrow> Inr (JStr x, r1))
          else if c = CHR ''{'' then
            (case skip_ws r of
               [] \<Rightarrow> Inl JSONDecodeError
             | c1 # r1 \<Rightarrow>
                 if c1 = CHR ''}'' then Inr (JDict [], r1)
                 else (case parse_members float_of n (c1 # r1) of
                         Inl e \<Rightarrow> Inl e
                       | Inr (ps, r2) \<Rightarrow> Inr (JDict (dict_of_pairs ps), r2)))
          else if c = CHR ''['' then
            (case skip_ws r of
               [] \<Rightarrow> Inl JSONDecodeError
             | c1 # r1 \<Rightarrow>
                 if c1 = CHR '']'' then Inr (JList [], r1)
                 else (case parse_elems float_of n (c1 # r1) of
                         Inl e \<Rightarrow> Inl e
                       | Inr (vs, r2) \<Rightarrow> Inr (JList vs, r2)))
          else if take 4 s = ''null'' then Inr (JNull, drop 4 s)
          else if take 4 s = ''true'' then Inr (JBool True, drop 4 s)
          else if take 5 s = ''false'' then Inr (JBool False, drop 5 s)
          else (case parse_number float_of s of
                  Some res \<Rightarrow> Inr res
                | None \<Rightarrow> parse_constant float_of s))"
| "parse_elems float_of 0 s = Inl OutOfFuel"
| "parse_elems float_of (Suc n) s =
     (case parse_value float_of n s of
        Inl e \<Rightarrow> Inl e
      | Inr (v, r) \<Rightarrow>
          (case skip_ws r of
             [] \<Rightarrow> Inl JSONDecodeError
           | c # r1 \<Rightarrow>
               if c = CHR '','' then
                 (case parse_elems float_of n (skip_ws r1) of
                    Inl e \<Rightarrow> Inl e
                  | Inr (vs, r2) \<Rightarrow> Inr (v # vs, r2))
               else if c = CHR '']'' then Inr ([v], r1)
               else Inl JSONDecodeError))"
| "parse_members float_of 0 s = Inl OutOfFuel"
| "parse_members float_of (Suc n) s =
     (case s of
        [] \<Rightarrow> Inl JSONDecodeError
      | c # r \<Rightarrow>
          if c = CHR 0x22 then
            (case parse_string r [] of
               Inl e \<Rightarrow> Inl e
             | Inr (k, r1) \<Rightarrow>
                 (case skip_ws r1 of
                    [] \<Rightarrow> Inl JSONDecodeError
                  | c1 # r2 \<Rightarrow>
                      if c1 = CHR '':'' then
                        (case parse_value float_of n (skip_ws r2) of
                           Inl e \<Rightarrow> Inl e
                         | Inr (v, r3) \<Rightarrow>
                             (case skip_ws r3 of
                                [] \<Rightarrow> Inl JSONDecodeError
                              | c2 # r4 \<Rightarrow>
                                  if c2 = CHR '','' then
                                    (case parse_members float_of n (skip_ws r4) of
                                       Inl e \<Rightarrow> Inl e
                                     | Inr (ps, r5) \<Rightarrow> Inr ((k, v) # ps, r5))
                                  else if c2 = CHR ''}'' then Inr ([(k, v)], r4)
                                  else Inl JSONDecodeError))
                      else Inl JSONDecodeError))
          else Inl JSONDecodeError)"

definition json_loads :: "(string \<Rightarrow> pyfloat) \<Rightarrow> string \<Rightarrow> refusal + json" where
  "json_loads float_of s =
     (case parse_value float_of (2 * length s + 2) (skip_ws s) of
        Inl e \<Rightarrow> Inl e
      | Inr (v, r) \<Rightarrow> if skip_ws r = [] then Inr v else Inl JSONDecodeError)"

text \<open>
  A float literal is a text that the number pattern matches as a whole, with a fraction
  or an exponent. The two parameters read a float back when it is finite, its text is a
  float literal and \<open>float_of\<close> returns the float from that text, as the library
  guarantees of \<^verbatim>\<open>float(repr(x))\<close> for every finite \<open>x\<close>.
\<close>

definition float_literal :: "string \<Rightarrow> bool" where
  "float_literal t =
     (case scan_number t of
        None \<Rightarrow> False
      | Some (i, f, e, r) \<Rightarrow> r = [] \<and> (f \<noteq> [] \<or> e \<noteq> []))"

definition float_roundtrip :: "(pyfloat \<Rightarrow> string) \<Rightarrow> (string \<Rightarrow> pyfloat) \<Rightarrow> pyfloat \<Rightarrow> bool" where
  "float_roundtrip float_repr float_of x =
     (is_finite x \<and> float_literal (float_repr x) \<and> float_of (float_repr x) = x)"

text \<open>
  A value is read back as itself when its floats are read back, it holds no tuple, and
  no dictionary in it has a key twice (as in every Python dictionary).
\<close>

fun wf_json :: "(pyfloat \<Rightarrow> bool) \<Rightarrow> json \<Rightarrow> bool" where
  "wf_json ok (JFloat x) = ok x"
| "wf_json ok (JList xs) = (\<forall>x\<in>set xs. wf_json ok x)"
| "wf_json ok (JTuple xs) = False"
| "wf_json ok (JDict kvs) = (distinct (map fst kvs) \<and> (\<forall>p\<in>set kvs. wf_json ok (snd p)))"
| "wf_json ok _ = True"

text \<open>
  Notions for reading back a written text: what may follow a value, how a value starts,
  the text of one member of an object, and the property that a value is read back from its
  text whatever follows.
\<close>

definition follow_ok :: "string \<Rightarrow> bool" where
  "follow_ok r = (case r of [] \<Rightarrow> True
      | c # _ \<Rightarrow> c = CHR '','' \<or> c = CHR '']'' \<or> c = CHR ''}'' \<or> c = CHR 0x0A)"

definition starts_value :: "string \<Rightarrow> bool" where
  "starts_value s = (case s of [] \<Rightarrow> False
      | c # _ \<Rightarrow> \<not> is_ws c \<and> c \<noteq> CHR '']'' \<and> c \<noteq> CHR ''}'')"

definition dumps_member :: "(pyfloat \<Rightarrow> string) \<Rightarrow> string \<times> json \<Rightarrow> string" where
  "dumps_member float_repr p = dumps_str (fst p) @ CHR '':'' # json_dumps float_repr (snd p)"

definition reads_back :: "(pyfloat \<Rightarrow> string) \<Rightarrow> (string \<Rightarrow> pyfloat) \<Rightarrow> json \<Rightarrow> bool" where
  "reads_back float_repr float_of v =
     (starts_value (json_dumps float_repr v) \<and>
      (\<forall>n r. length (json_dumps float_repr v) \<le> n \<longrightarrow> follow_ok r \<longrightarrow>
         parse_value float_of n (json_dumps float_repr v @ r) = Inr (v, r)))"

text \<open>
  The values of \<^verbatim>\<open>float.__repr__\<close> and \<^verbatim>\<open>float\<close> on the floats and the texts of
  the examples below, and a parser for the examples: it returns the value that
  \<open>json_loads\<close> reads and fails where \<open>json_loads\<close> reports a decode error. It also fails
  on a text that \<open>json_loads\<close> does not represent; no example has such a text. The
  theorems about \<open>decode\<close> are stated for every parser, not for this one.
\<close>

definition repr_sample :: "pyfloat \<Rightarrow> string" where
  "repr_sample x =
     (if x = Finite False 3464611161 (- 1) then ''1732305580.5''
      else if x = Finite False 3 (- 1) then ''1.5''
      else if x = Finite True 5 (- 2) then ''-1.25''
      else ''0.0'')"

definition float_sample :: "string \<Rightarrow> pyfloat" where
  "float_sample t =
     (if t = ''1732305580.5'' then Finite False 3464611161 (- 1)
      else if t = ''1.5'' then Finite False 3 (- 1)
      else if t = ''-1.25'' then Finite True 5 (- 2)
      else if t = ''1e3'' then Finite False 125 3
      else if t = ''nan'' then NaN
      else if t = ''inf'' then Infinite False
      else if t = ''-inf'' then Infinite True
      else Finite False 0 0)"

definition sample_loads :: "string \<Rightarrow> json option" where
  "sample_loads s = (case json_loads float_sample s of Inr v \<Rightarrow> Some v | Inl e \<Rightarrow> None)"

text \<open>The messages that the constructors of the catalog build.\<close>

inductive catalog :: "Message \<Rightarrow> bool" where
  "catalog (cmd_connect server port)"
| "catalog (cmd_nick nickname)"
| "catalog cmd_list"
| "catalog (cmd_join channel)"
| "catalog (cmd_leave channel)"
| "catalog (cmd_quit reason)"
| "catalog cmd_help"
| "catalog (cmd_msg text channel)"
| "catalog (resp_ok command_name data)"
| "catalog (resp_error command_name error_msg data)"
| "catalog (resp_connected server_name client_id motd)"
| "catalog (resp_list_channels chans)"
| "catalog (resp_help commands)"
| "catalog (evt_message channel sender text timestamp now)"
| "catalog (evt_user_joined channel username)"
| "catalog (evt_user_left channel username)"
| "catalog (evt_server_shutdown reason)"

section \<open>chat_server.py: the server state\<close>

text \<open>
  A socket is a number. \<open>clients\<close> and \<open>channels\<close> are the two dictionaries of the
  server, in insertion order. A Python set is a list without duplicates: \<^verbatim>\<open>add\<close> is
  \<open>List.insert\<close>, \<^verbatim>\<open>discard\<close> is \<open>removeAll\<close>. Python iterates a set in an order of
  its own; the model iterates in list order, and \<^verbatim>\<open>list(client_channels)[0]\<close> is the
  head of the list.

  \<open>locked\<close> says whether \<^verbatim>\<open>client_lock\<close> is held. The lock is a
  \<^verbatim>\<open>threading.Lock\<close>, which is not reentrant: acquiring it while it is held blocks.
  \<open>trace\<close> records, in order, every acquisition and release of the lock, every call of
  \<^verbatim>\<open>sendall\<close> (\<open>Send s m\<close> is the write of \<open>encode m\<close> to socket \<open>s\<close>; a failing write
  is swallowed by \<^verbatim>\<open>_send_message\<close>) and every \<^verbatim>\<open>close\<close> of a client socket.
\<close>

type_synonym sock = nat

record client_info =
  ci_nickname :: string
  ci_channels :: "string list"
  ci_address :: "string \<times> nat"

datatype event = Acquire | Release | Send sock Message | Close sock

record server =
  clients :: "(sock \<times> client_info) list"
  channels :: "(string \<times> sock list) list"
  locked :: bool
  trace :: "event list"

text \<open>
  How a call ends: it returns, it raises an exception that its caller sees, or its thread
  blocks for ever on the lock. Each carries the state reached.
\<close>

datatype outcome = Returns server | Raises py_error server | Blocks server

fun returns :: "outcome \<Rightarrow> bool" where
  "returns (Returns st) = True"
| "returns _ = False"

fun blocks :: "outcome \<Rightarrow> bool" where
  "blocks (Blocks st) = True"
| "blocks _ = False"

fun state_of :: "outcome \<Rightarrow> server" where
  "state_of (Returns st) = st"
| "state_of (Raises e st) = st"
| "state_of (Blocks st) = st"

definition init_server :: server where
  "init_server = \<lparr>clients = [], channels = [], locked = False, trace = []\<rparr>"

definition acquire :: "server \<Rightarrow> server" where
  "acquire st = st\<lparr>locked := True, trace := trace st @ [Acquire]\<rparr>"

definition release :: "server \<Rightarrow> server" where
  "release st = st\<lparr>locked := False, trace := trace st @ [Release]\<rparr>"

definition send_message :: "server \<Rightarrow> sock \<Rightarrow> Message \<Rightarrow> server" where
  "send_message st client_socket message = st\<lparr>trace := trace st @ [Send client_socket message]\<rparr>"

definition send_error :: "server \<Rightarrow> sock \<Rightarrow> json \<Rightarrow> string \<Rightarrow> server" where
  "send_error st client_socket command_name error_msg =
     send_message st client_socket (resp_error command_name (JStr error_msg) None)"

definition broadcast_to_channel :: "server \<Rightarrow> string \<Rightarrow> Message \<Rightarrow> sock option \<Rightarrow> outcome" where
  "broadcast_to_channel st channel message exclude =
     (if locked st then Blocks st
      else
        let st1 = acquire st;
            st2 = (case map_of (channels st1) channel of
                     None \<Rightarrow> st1
                   | Some members \<Rightarrow>
                       fold (\<lambda>client_socket s.
                               if Some client_socket \<noteq> exclude
                               then send_message s client_socket message else s)
                            members st1)
        in Returns (release st2))"

text \<open>
  The first lines of \<^verbatim>\<open>_handle_client\<close>: the session is registered under the lock
  with the default nickname, then the welcome message is sent.
\<close>

definition register_client :: "nat \<Rightarrow> server \<Rightarrow> sock \<Rightarrow> string \<times> nat \<Rightarrow> outcome" where
  "register_client port st client_socket address =
     (if locked st then Blocks st
      else
        let st1 = acquire st;
            st2 = st1\<lparr>clients := AList.update client_socket
                      \<lparr>ci_nickname = ''user_'' @ str_nat (snd address),
                       ci_channels = [], ci_address = address\<rparr> (clients st1)\<rparr>;
            st3 = release st2
        in Returns (send_message st3 client_socket
                      (resp_connected (JStr (''ChatServer:'' @ str_nat port))
                         (JStr (str_nat (snd address)))
                         (JStr ''Welcome to the chat server!''))))"

definition handle_nick :: "server \<Rightarrow> sock \<Rightarrow> Message \<Rightarrow> outcome" where
  "handle_nick st client_socket msg =
     (case dict_get (msg_data msg) ''nickname'' (JStr []) of
        Inl e \<Rightarrow> Raises e st
      | Inr v \<Rightarrow>
     (case py_strip v of
        Inl e \<Rightarrow> Raises e st
      | Inr nickname \<Rightarrow>
          if nickname = [] \<or> length nickname > 20 \<or> \<not> isalnum (remove_underscores nickname)
          then Returns (send_error st client_socket (JStr ''nick'') ''Invalid nickname format'')
          else if locked st then Blocks st
          else
            let st1 = acquire st
            in if list_ex (\<lambda>(client, info). client \<noteq> client_socket \<and> ci_nickname info = nickname)
                          (clients st1)
               then Returns (release (send_error st1 client_socket (JStr ''nick'')
                                        ''Nickname already in use''))
               else
                 (case map_of (clients st1) client_socket of
                    None \<Rightarrow> Raises KeyError (release st1)
                  | Some info \<Rightarrow>
                      let st2 = st1\<lparr>clients := AList.update client_socket
                                        (info\<lparr>ci_nickname := nickname\<rparr>) (clients st1)\<rparr>;
                          st3 = release st2
                      in Returns (send_message st3 client_socket
                                    (resp_ok (JStr ''nick'')
                                       (Some [(''nickname'', JStr nickname)]))))))"

definition list_entry :: "string \<times> sock list \<Rightarrow> json" where
  "list_entry e = JDict [(''name'', JStr (fst e)), (''users'', JInt (int (length (snd e))))]"

definition handle_list :: "server \<Rightarrow> sock \<Rightarrow> Message \<Rightarrow> outcome" where
  "handle_list st client_socket msg =
     (if locked st then Blocks st
      else
        let st1 = acquire st;
            chans = map list_entry (channels st1);
            st2 = release st1
        in Returns (send_message st2 client_socket (resp_list_channels (JList chans))))"

definition handle_join :: "server \<Rightarrow> sock \<Rightarrow> Message \<Rightarrow> outcome" where
  "handle_join st client_socket msg =
     (case dict_get (msg_data msg) ''channel'' (JStr []) of
        Inl e \<Rightarrow> Raises e st
      | Inr v \<Rightarrow>
     (case py_strip v of
        Inl e \<Rightarrow> Raises e st
      | Inr channel \<Rightarrow>
          if channel = [] \<or> \<not> startswith_hash channel \<or> length channel < 2
          then Returns (send_error st client_socket (JStr ''join'') ''Invalid channel name'')
          else if locked st then Blocks st
          else
            let st1 = acquire st;
                chans1 = (if map_of (channels st1) channel = None
                          then channels st1 @ [(channel, [])] else channels st1);
                members = (case map_of chans1 channel of None \<Rightarrow> [] | Some ms \<Rightarrow> ms);
                st2 = st1\<lparr>channels := AList.update channel
                                         (List.insert client_socket members) chans1\<rparr>
            in (case map_of (clients st2) client_socket of
                  None \<Rightarrow> Raises KeyError (release st2)
                | Some info \<Rightarrow>
                    let st3 = st2\<lparr>clients := AList.update client_socket
                                (info\<lparr>ci_channels := List.insert channel (ci_channels info)\<rparr>)
                                (clients st2)\<rparr>;
                        nickname = ci_nickname info;
                        st4 = release st3;
                        st5 = send_message st4 client_socket
                                (resp_ok (JStr ''join'') (Some [(''channel'', JStr channel)]))
                    in broadcast_to_channel st5 channel
                         (evt_user_joined (JStr channel) (JStr nickname))
                         (Some client_socket))))"

text \<open>
  \<^verbatim>\<open>_handle_leave\<close> and \<^verbatim>\<open>_handle_msg\<close> share the choice of the channel: the one of the
  command when it is truthy, else the first joined one, else there is none.
\<close>

definition current_channel :: "json \<Rightarrow> string list \<Rightarrow> json option" where
  "current_channel channel client_channels =
     (if \<not> truthy channel
      then (case client_channels of [] \<Rightarrow> None | c # _ \<Rightarrow> Some (JStr c))
      else Some channel)"

definition leave_channel :: "server \<Rightarrow> sock \<Rightarrow> client_info \<Rightarrow> string \<Rightarrow> sock list \<Rightarrow> server" where
  "leave_channel st client_socket info channel members =
     (let members' = removeAll client_socket members;
          chans1 = AList.update channel members' (channels st);
          info' = info\<lparr>ci_channels := removeAll channel (ci_channels info)\<rparr>;
          chans2 = (if length members' = 0 then AList.delete channel chans1 else chans1)
      in st\<lparr>clients := AList.update client_socket info' (clients st), channels := chans2\<rparr>)"

definition handle_leave :: "server \<Rightarrow> sock \<Rightarrow> Message \<Rightarrow> outcome" where
  "handle_leave st client_socket msg =
     (case dict_get (msg_data msg) ''channel'' JNull of
        Inl e \<Rightarrow> Raises e st
      | Inr channel0 \<Rightarrow>
          if locked st then Blocks st
          else
            let st1 = acquire st
            in (case map_of (clients st1) client_socket of
                  None \<Rightarrow> Raises KeyError (release st1)
                | Some info \<Rightarrow>
               (case current_channel channel0 (ci_channels info) of
                  None \<Rightarrow> Returns (release (send_error st1 client_socket (JStr ''leave'')
                                             ''Not in any channel''))
                | Some channel \<Rightarrow>
               (case in_channels channel (ci_channels info) of
                  Inl e \<Rightarrow> Raises e (release st1)
                | Inr None \<Rightarrow> Returns (release (send_error st1 client_socket (JStr ''leave'')
                                                 ''Not in that channel''))
                | Inr (Some c) \<Rightarrow>
                    (case map_of (channels st1) c of
                       None \<Rightarrow> Raises KeyError (release st1)
                     | Some members \<Rightarrow>
                         let st2 = leave_channel st1 client_socket info c members;
                             nickname = ci_nickname info;
                             st3 = release st2;
                             st4 = send_message st3 client_socket
                                     (resp_ok (JStr ''leave'') (Some [(''channel'', JStr c)]))
                         in broadcast_to_channel st4 c
                              (evt_user_left (JStr c) (JStr nickname)) None)))))"

definition handle_msg :: "json \<Rightarrow> server \<Rightarrow> sock \<Rightarrow> Message \<Rightarrow> outcome" where
  "handle_msg now st client_socket msg =
     (case dict_get (msg_data msg) ''text'' (JStr []) of
        Inl e \<Rightarrow> Raises e st
      | Inr v \<Rightarrow>
     (case py_strip v of
        Inl e \<Rightarrow> Raises e st
      | Inr text \<Rightarrow>
     (case dict_get (msg_data msg) ''channel'' JNull of
        Inl e \<Rightarrow> Raises e st
      | Inr channel0 \<Rightarrow>
          if text = [] then Returns st
          else if locked st then Blocks st
          else
            let st1 = acquire st
            in (case map_of (clients st1) client_socket of
                  None \<Rightarrow> Raises KeyError (release st1)
                | Some info \<Rightarrow>
               (case current_channel channel0 (ci_channels info) of
                  None \<Rightarrow> Returns (release (send_error st1 client_socket (JStr ''msg'')
                                             ''Not in any channel''))
                | Some channel \<Rightarrow>
               (case in_channels channel (ci_channels info) of
                  Inl e \<Rightarrow> Raises e (release st1)
                | Inr None \<Rightarrow> Returns (release (send_error st1 client_socket (JStr ''msg'')
                                                 ''Not in that channel''))
                | Inr (Some c) \<Rightarrow>
                    broadcast_to_channel (release st1) c
                      (evt_message (JStr c) (JStr (ci_nickname info)) (JStr text) JNull now)
                      None))))))"

definition help_commands :: "json" where
  "help_commands = JList (map JStr
     [''/connect <server> [port] - Connect to server'',
      ''/nick <nickname> - Set your nickname'',
      ''/list - List all channels'',
      ''/join <channel> - Join a channel'',
      ''/leave [channel] - Leave a channel'',
      ''/quit - Disconnect from server'',
      ''/help - Show this help message''])"

definition handle_help :: "server \<Rightarrow> sock \<Rightarrow> Message \<Rightarrow> outcome" where
  "handle_help st client_socket msg =
     Returns (send_message st client_socket (resp_help help_commands))"

definition handle_quit :: "server \<Rightarrow> sock \<Rightarrow> Message \<Rightarrow> outcome" where
  "handle_quit st client_socket msg =
     (case dict_get (msg_data msg) ''reason'' (JStr ''Client quit'') of
        Inl e \<Rightarrow> Raises e st
      | Inr reason \<Rightarrow> Returns (send_message st client_socket (resp_ok (JStr ''quit'') None)))"

text \<open>
  The loop of \<^verbatim>\<open>_disconnect_client\<close> over \<^verbatim>\<open>list(client_info["channels"])\<close>. It runs
  inside \<^verbatim>\<open>with self.client_lock\<close> and calls \<^verbatim>\<open>_broadcast_to_channel\<close>, which takes
  the same lock.
\<close>

fun disconnect_loop :: "server \<Rightarrow> sock \<Rightarrow> string \<Rightarrow> string list \<Rightarrow> outcome" where
  "disconnect_loop st client_socket nickname [] = Returns st"
| "disconnect_loop st client_socket nickname (channel # rest) =
     (case map_of (channels st) channel of
        None \<Rightarrow> disconnect_loop st client_socket nickname rest
      | Some members \<Rightarrow>
          let st1 = st\<lparr>channels := AList.update channel (removeAll client_socket members)
                                      (channels st)\<rparr>
          in (case broadcast_to_channel st1 channel
                     (evt_user_left (JStr channel) (JStr nickname)) None of
                Returns st2 \<Rightarrow>
                  (case map_of (channels st2) channel of
                     None \<Rightarrow> Raises KeyError st2
                   | Some members2 \<Rightarrow>
                       disconnect_loop
                         (if length members2 = 0
                          then st2\<lparr>channels := AList.delete channel (channels st2)\<rparr> else st2)
                         client_socket nickname rest)
              | Raises e st2 \<Rightarrow> Raises e st2
              | Blocks st2 \<Rightarrow> Blocks st2))"

definition disconnect_client :: "server \<Rightarrow> sock \<Rightarrow> outcome" where
  "disconnect_client st client_socket =
     (if locked st then Blocks st
      else
        let st1 = acquire st
        in (case map_of (clients st1) client_socket of
              None \<Rightarrow> Returns ((release st1)\<lparr>trace := trace (release st1) @ [Close client_socket]\<rparr>)
            | Some info \<Rightarrow>
                (case disconnect_loop st1 client_socket (ci_nickname info) (ci_channels info) of
                   Returns st2 \<Rightarrow>
                     let st3 = release (st2\<lparr>clients := AList.delete client_socket (clients st2)\<rparr>)
                     in Returns (st3\<lparr>trace := trace st3 @ [Close client_socket]\<rparr>)
                 | Raises e st2 \<Rightarrow> Raises e (release st2)
                 | Blocks st2 \<Rightarrow> Blocks st2)))"

text \<open>
  \<^verbatim>\<open>_process_message\<close>: decode, dispatch on the name, and turn a ValueError into an error
  response.
\<close>

definition dispatch :: "json \<Rightarrow> server \<Rightarrow> sock \<Rightarrow> Message \<Rightarrow> outcome" where
  "dispatch now st client_socket msg =
     (if msg_type msg \<noteq> COMMAND
      then Returns (send_error st client_socket (JStr ''unknown'') ''Expected command message'')
      else if msg_name msg = JStr ''nick'' then handle_nick st client_socket msg
      else if msg_name msg = JStr ''list'' then handle_list st client_socket msg
      else if msg_name msg = JStr ''join'' then handle_join st client_socket msg
      else if msg_name msg = JStr ''leave'' then handle_leave st client_socket msg
      else if msg_name msg = JStr ''msg'' then handle_msg now st client_socket msg
      else if msg_name msg = JStr ''help'' then handle_help st client_socket msg
      else if msg_name msg = JStr ''quit'' then handle_quit st client_socket msg
      else Returns (send_error st client_socket (msg_name msg) ''Unknown command''))"

definition process_message ::
  "(string \<Rightarrow> json option) \<Rightarrow> json \<Rightarrow> server \<Rightarrow> sock \<Rightarrow> string \<Rightarrow> outcome" where
  "process_message loads now st client_socket line =
     (case decode loads line of
        Inl e \<Rightarrow>
          (if e = ValueError
           then Returns (send_error st client_socket (JStr ''unknown'') ''Invalid message format'')
           else Raises e st)
      | Inr msg \<Rightarrow>
          (case dispatch now st client_socket msg of
             Raises e st' \<Rightarrow>
               (if e = ValueError
                then Returns (send_error st' client_socket (JStr ''unknown'')
                                ''Invalid message format'')
                else Raises e st')
           | r \<Rightarrow> r))"

section \<open>Running the server\<close>

text \<open>
  What a connection thread does, one step at a time: a connection is accepted and
  registered, a decoded message of a client is dispatched, a connection ends and is
  cleaned up. \<open>run\<close> performs the steps one after the other and stops at the first that
  does not return.
\<close>

datatype action =
    Connect sock "string \<times> nat"
  | Command sock Message
  | Disconnect sock

fun step :: "nat \<Rightarrow> json \<Rightarrow> server \<Rightarrow> action \<Rightarrow> outcome" where
  "step port now st (Connect s address) = register_client port st s address"
| "step port now st (Command s msg) = dispatch now st s msg"
| "step port now st (Disconnect s) = disconnect_client st s"

fun run :: "nat \<Rightarrow> json \<Rightarrow> server \<Rightarrow> action list \<Rightarrow> outcome" where
  "run port now st [] = Returns st"
| "run port now st (a # as) =
     (case step port now st a of
        Returns st' \<Rightarrow> run port now st' as
      | r \<Rightarrow> r)"

section \<open>Reading a trace\<close>

text \<open>The messages written to a socket, in order.\<close>

fun sent_to :: "sock \<Rightarrow> event list \<Rightarrow> Message list" where
  "sent_to s [] = []"
| "sent_to s (Send s' m # es) = (if s' = s then m # sent_to s es else sent_to s es)"
| "sent_to s (_ # es) = sent_to s es"

text \<open>
  The socket writes made while the lock is held: \<open>held\<close> is whether the lock is held
  before the first event.
\<close>

fun writes_under_lock :: "bool \<Rightarrow> event list \<Rightarrow> (sock \<times> Message) list" where
  "writes_under_lock held [] = []"
| "writes_under_lock held (Acquire # es) = writes_under_lock True es"
| "writes_under_lock held (Release # es) = writes_under_lock False es"
| "writes_under_lock held (Send s m # es) =
     (if held then (s, m) # writes_under_lock held es else writes_under_lock held es)"
| "writes_under_lock held (Close s # es) = writes_under_lock held es"

section \<open>The invariant of the channel registry\<close>

text \<open>No channel of the registry is without members.\<close>

definition channels_nonempty :: "server \<Rightarrow> bool" where
  "channels_nonempty st = list_all (\<lambda>p. snd p \<noteq> []) (channels st)"

section \<open>Scenarios\<close>

text \<open>The events of a given name among the messages a socket was sent.\<close>

definition events_named :: "string \<Rightarrow> Message list \<Rightarrow> Message list" where
  "events_named name ms = filter (\<lambda>m. msg_type m = EVENT \<and> msg_name m = JStr name) ms"

text \<open>Two clients connect and both join \<open>#cats\<close>: client 2 first, then client 1.\<close>

definition two_in_cats :: "action list" where
  "two_in_cats =
     [Connect 1 (''10.0.0.1'', 5001), Connect 2 (''10.0.0.2'', 5002),
      Command 2 (cmd_join (JStr ''#cats'')), Command 1 (cmd_join (JStr ''#cats''))]"

text \<open>The registries after \<open>two_in_cats\<close>, with an empty trace.\<close>

definition cats_state :: server where
  "cats_state =
     \<lparr>clients =
        [(1, \<lparr>ci_nickname = ''user_5001'', ci_channels = [''#cats''],
               ci_address = (''10.0.0.1'', 5001)\<rparr>),
         (2, \<lparr>ci_nickname = ''user_5002'', ci_channels = [''#cats''],
               ci_address = (''10.0.0.2'', 5002)\<rparr>)],
      channels = [(''#cats'', [1, 2])], locked = False, trace = []\<rparr>"

section \<open>Reading back what \<open>json_dumps\<close> wrote\<close>

lemma hex_table: "list_all (\<lambda>d. hex_val (hex_digit d) = Some d) [0..<16]"
  by (simp add: upt_rec hex_val_def hex_digit_def)

lemma hex_val_hex_digit: "d < 16 \<Longrightarrow> hex_val (hex_digit d) = Some d"
  using hex_table by (simp add: list_all_iff)

lemma hex4_byte:
  assumes "n < 256"
  shows "hex4 (CHR ''0'') (CHR ''0'') (hex_digit (n div 16)) (hex_digit (n mod 16)) = Some n"
proof -
  have a: "n div 16 < 16" using assms by simp
  have b: "n mod 16 < 16" by simp
  have z: "hex_val (CHR ''0'') = Some 0" by (simp add: hex_val_def)
  show ?thesis
    by (simp add: hex4_def z hex_val_hex_digit [OF a] hex_val_hex_digit [OF b])
qed

lemma parse_string_escape:
  "parse_string (escape_char c @ t) acc = parse_string t (acc @ [c])"
proof -
  let ?n = "of_char c :: nat"
  have n: "?n < 256" by simp
  consider (special) "c = CHR 0x22 \<or> c = CHR 0x5C \<or> c = CHR 0x0A \<or> c = CHR 0x0D \<or> c = CHR 0x09
       \<or> c = CHR 0x08 \<or> c = CHR 0x0C"
    | (u) "\<not> (c = CHR 0x22 \<or> c = CHR 0x5C \<or> c = CHR 0x0A \<or> c = CHR 0x0D \<or> c = CHR 0x09
       \<or> c = CHR 0x08 \<or> c = CHR 0x0C)" "?n < 32 \<or> 126 < ?n"
    | (plain) "\<not> (c = CHR 0x22 \<or> c = CHR 0x5C \<or> c = CHR 0x0A \<or> c = CHR 0x0D \<or> c = CHR 0x09
       \<or> c = CHR 0x08 \<or> c = CHR 0x0C)" "\<not> (?n < 32 \<or> 126 < ?n)"
    by auto
  then show ?thesis
  proof cases
    case special
    then show ?thesis
      by (elim disjE) (simp_all add: escape_char_def unescape_def)
  next
    case u
    then have e: "escape_char c = [CHR 0x5C, CHR ''u'', CHR ''0'', CHR ''0'',
            hex_digit (?n div 16), hex_digit (?n mod 16)]"
      by (simp add: escape_char_def)
    show ?thesis
      by (simp add: e hex4_byte [OF n])
  next
    case plain
    then have e: "escape_char c = [c]" by (simp add: escape_char_def)
    from plain show ?thesis by (simp add: e)
  qed
qed

lemma parse_string_roundtrip:
  "parse_string (concat (map escape_char s) @ CHR 0x22 # rest) acc = Inr (acc @ s, rest)"
proof (induction s arbitrary: acc)
  case Nil
  show ?case by simp
next
  case (Cons c s)
  have "parse_string (concat (map escape_char (c # s)) @ CHR 0x22 # rest) acc
        = parse_string (escape_char c @ (concat (map escape_char s) @ CHR 0x22 # rest)) acc"
    by simp
  also have "\<dots> = parse_string (concat (map escape_char s) @ CHR 0x22 # rest) (acc @ [c])"
    by (rule parse_string_escape)
  also have "\<dots> = Inr ((acc @ [c]) @ s, rest)" by (rule Cons.IH)
  finally show ?case by simp
qed

lemma digit_table:
  "list_all (\<lambda>d. is_digit (''0123456789'' ! d) \<and> digit_val (''0123456789'' ! d) = d
      \<and> ((''0123456789'' ! d) = CHR ''0'' \<longleftrightarrow> d = 0)
      \<and> (''0123456789'' ! d) \<noteq> CHR ''-'') [0..<10]"
  by (simp add: upt_rec is_digit_def digit_val_def)

lemma digit_facts:
  assumes "d < 10"
  shows "is_digit (''0123456789'' ! d)" and "digit_val (''0123456789'' ! d) = d"
    and "(''0123456789'' ! d) = CHR ''0'' \<longleftrightarrow> d = 0"
    and "(''0123456789'' ! d) \<noteq> CHR ''-''"
  using digit_table assms by (simp_all add: list_all_iff)

lemma str_nat_small: "n < 10 \<Longrightarrow> str_nat n = [''0123456789'' ! n]"
  by (subst str_nat.simps) simp

lemma str_nat_big:
  "\<not> n < 10 \<Longrightarrow> str_nat n = str_nat (n div 10) @ [''0123456789'' ! (n mod 10)]"
  by (subst str_nat.simps) simp

lemma str_nat_nonempty: "str_nat n \<noteq> []"
  by (cases "n < 10") (simp_all add: str_nat_small str_nat_big)

lemma str_nat_digits: "list_all is_digit (str_nat n)"
proof (induction n rule: str_nat.induct)
  case (1 n)
  show ?case
  proof (cases "n < 10")
    case True
    then show ?thesis by (simp add: str_nat_small digit_facts(1))
  next
    case False
    have "n mod 10 < 10" by simp
    with False 1 show ?thesis by (simp add: str_nat_big digit_facts(1))
  qed
qed

lemma nat_of_digits_snoc: "nat_of_digits (ds @ [c]) = 10 * nat_of_digits ds + digit_val c"
  by (simp add: nat_of_digits_def)

lemma nat_of_digits_str_nat: "nat_of_digits (str_nat n) = n"
proof (induction n rule: str_nat.induct)
  case (1 n)
  show ?case
  proof (cases "n < 10")
    case True
    then show ?thesis by (simp add: str_nat_small nat_of_digits_def digit_facts(2))
  next
    case False
    have m: "n mod 10 < 10" by simp
    from False 1 have "nat_of_digits (str_nat (n div 10)) = n div 10" by simp
    with False show ?thesis
      by (simp add: str_nat_big nat_of_digits_snoc digit_facts(2) [OF m])
  qed
qed

lemma hd_str_nat_zero: "hd (str_nat n) = CHR ''0'' \<longleftrightarrow> n = 0"
proof (induction n rule: str_nat.induct)
  case (1 n)
  show ?case
  proof (cases "n < 10")
    case True
    then show ?thesis by (simp add: str_nat_small digit_facts(3))
  next
    case False
    then have "n div 10 \<noteq> 0" by simp
    with False 1 have "hd (str_nat (n div 10)) \<noteq> CHR ''0''" by simp
    with False show ?thesis by (simp add: str_nat_big str_nat_nonempty)
  qed
qed

lemma follow_ok_cases:
  assumes "follow_ok r"
  obtains "r = []" | c t where "r = c # t" "\<not> is_digit c" "c \<noteq> CHR ''.''" "c \<noteq> CHR ''e''"
    "c \<noteq> CHR ''E''" "c \<noteq> CHR ''+''" "c \<noteq> CHR ''-''"
  using assms by (cases r) (auto simp: follow_ok_def is_digit_def)

lemma scan_digits_append:
  "follow_ok r \<Longrightarrow> scan_digits a = (ds, r0) \<Longrightarrow> scan_digits (a @ r) = (ds, r0 @ r)"
  unfolding scan_digits_def
  by (induction a arbitrary: ds r0) (auto elim: follow_ok_cases)

lemma scan_digits_concat: "scan_digits s = (ds, r) \<Longrightarrow> ds @ r = s"
  by (auto simp: scan_digits_def)

lemma scan_digits_all: "list_all is_digit s \<Longrightarrow> scan_digits s = (s, [])"
  by (simp add: scan_digits_def list_all_iff)

lemma scan_unsigned_append:
  assumes "scan_unsigned t = Some (i, r1)" and "follow_ok r"
  shows "scan_unsigned (t @ r) = Some (i, r1 @ r)"
proof (cases t)
  case Nil
  then show ?thesis using assms(1) by (simp add: scan_unsigned_def)
next
  case (Cons d t')
  show ?thesis
  proof (cases "d = CHR ''0''")
    case True
    then show ?thesis using assms(1) Cons by (simp add: scan_unsigned_def)
  next
    case False
    then have dig: "is_digit d" and sd: "scan_digits (d # t') = (i, r1)"
      using assms(1) Cons by (auto simp: scan_unsigned_def split: if_splits)
    have "scan_digits ((d # t') @ r) = (i, r1 @ r)"
      by (rule scan_digits_append [OF assms(2) sd])
    then show ?thesis using False dig Cons by (simp add: scan_unsigned_def)
  qed
qed

lemma scan_int_append:
  assumes "scan_int t = Some (i, r1)" and "follow_ok r"
  shows "scan_int (t @ r) = Some (i, r1 @ r)"
proof (cases t)
  case Nil
  then show ?thesis using assms(1) by (simp add: scan_int_def)
next
  case (Cons c t')
  show ?thesis
  proof (cases "c = CHR ''-''")
    case True
    then obtain j where su: "scan_unsigned t' = Some (j, r1)" and i: "i = c # j"
      using assms(1) Cons by (auto simp: scan_int_def split: option.splits)
    show ?thesis
      using True Cons i scan_unsigned_append [OF su assms(2)] by (simp add: scan_int_def)
  next
    case False
    then have su: "scan_unsigned (c # t') = Some (i, r1)"
      using assms(1) Cons by (simp add: scan_int_def)
    show ?thesis
      using False Cons scan_unsigned_append [OF su assms(2)] by (simp add: scan_int_def)
  qed
qed

lemma scan_frac_append:
  assumes "follow_ok r" and "scan_frac a = (f, r0)"
  shows "scan_frac (a @ r) = (f, r0 @ r)"
proof (cases a)
  case Nil
  then show ?thesis
    using assms by (auto simp: scan_frac_def elim!: follow_ok_cases split: list.splits)
next
  case (Cons c a')
  note a = this
  show ?thesis
  proof (cases a')
    case Nil
    then show ?thesis
      using assms a by (auto simp: scan_frac_def elim!: follow_ok_cases)
  next
    case (Cons d rr)
    show ?thesis
    proof (cases "c = CHR ''.'' \<and> is_digit d")
      case False
      then show ?thesis using assms(2) a Cons by (auto simp: scan_frac_def)
    next
      case True
      obtain ds r1 where sd: "scan_digits (d # rr) = (ds, r1)" by (cases "scan_digits (d # rr)")
      have "scan_digits ((d # rr) @ r) = (ds, r1 @ r)"
        by (rule scan_digits_append [OF assms(1) sd])
      then show ?thesis using True assms(2) a Cons sd by (auto simp: scan_frac_def)
    qed
  qed
qed

lemma scan_exp_digits_append:
  assumes "scan_exp_digits t = Some (x, r1)" and "follow_ok r"
  shows "scan_exp_digits (t @ r) = Some (x, r1 @ r)"
proof (cases t)
  case Nil
  then show ?thesis using assms(1) by (simp add: scan_exp_digits_def)
next
  case (Cons c t')
  show ?thesis
  proof (cases "c = CHR ''+'' \<or> c = CHR ''-''")
    case True
    then obtain d rr where t': "t' = d # rr" and dig: "is_digit d"
      using assms(1) Cons by (cases t') (auto simp: scan_exp_digits_def split: if_splits)
    obtain ds where sd: "scan_digits (d # rr) = (ds, r1)" and x: "x = c # ds"
      using assms(1) Cons True t' dig
      by (auto simp: scan_exp_digits_def split: prod.splits)
    have "scan_digits ((d # rr) @ r) = (ds, r1 @ r)"
      by (rule scan_digits_append [OF assms(2) sd])
    then show ?thesis using True Cons t' dig x by (auto simp: scan_exp_digits_def)
  next
    case False
    then have dig: "is_digit c" and sd: "scan_digits (c # t') = (x, r1)"
      using assms(1) Cons by (auto simp: scan_exp_digits_def split: if_splits)
    have "scan_digits ((c # t') @ r) = (x, r1 @ r)"
      by (rule scan_digits_append [OF assms(2) sd])
    then show ?thesis using False dig Cons by (simp add: scan_exp_digits_def)
  qed
qed

lemma scan_exp_digits_follow: "follow_ok r \<Longrightarrow> scan_exp_digits r = None"
  by (auto simp: scan_exp_digits_def elim!: follow_ok_cases)

lemma scan_exp_digits_sign_follow:
  "follow_ok r \<Longrightarrow> x = CHR ''+'' \<or> x = CHR ''-'' \<Longrightarrow> scan_exp_digits (x # r) = None"
  by (auto simp: scan_exp_digits_def elim!: follow_ok_cases)

lemma scan_exp_digits_None_append:
  assumes "scan_exp_digits t = None" and "follow_ok r"
  shows "scan_exp_digits (t @ r) = None"
proof (cases t)
  case Nil
  then show ?thesis using scan_exp_digits_follow [OF assms(2)] by simp
next
  case (Cons c t')
  show ?thesis
  proof (cases "c = CHR ''+'' \<or> c = CHR ''-''")
    case True
    show ?thesis
    proof (cases t')
      case Nil
      then show ?thesis
        using scan_exp_digits_sign_follow [OF assms(2) True] Cons by simp
    next
      case (Cons d rr)
      then show ?thesis
        using assms(1) True \<open>t = c # t'\<close>
        by (auto simp: scan_exp_digits_def split: if_splits prod.splits)
    qed
  next
    case False
    then show ?thesis
      using assms(1) Cons by (auto simp: scan_exp_digits_def split: if_splits)
  qed
qed

lemma scan_exp_append:
  assumes "follow_ok r" and "scan_exp a = (e, r0)"
  shows "scan_exp (a @ r) = (e, r0 @ r)"
proof (cases a)
  case Nil
  then show ?thesis using assms by (auto simp: scan_exp_def elim!: follow_ok_cases)
next
  case (Cons c a')
  show ?thesis
  proof (cases "c = CHR ''e'' \<or> c = CHR ''E''")
    case False
    then show ?thesis using assms(2) Cons by (auto simp: scan_exp_def)
  next
    case True
    show ?thesis
    proof (cases "scan_exp_digits a'")
      case None
      then show ?thesis
        using True assms(2) Cons scan_exp_digits_None_append [OF None assms(1)]
        by (auto simp: scan_exp_def)
    next
      case (Some p)
      obtain t r1 where p: "p = (t, r1)" by (cases p)
      show ?thesis
        using True assms(2) Cons Some p scan_exp_digits_append [OF Some [unfolded p] assms(1)]
        by (auto simp: scan_exp_def)
    qed
  qed
qed

lemma scan_number_append:
  assumes "scan_number t = Some (i, f, e, r0)" and "follow_ok r"
  shows "scan_number (t @ r) = Some (i, f, e, r0 @ r)"
proof -
  obtain r1 where si: "scan_int t = Some (i, r1)"
    using assms(1) by (auto simp: scan_number_def split: option.splits prod.splits)
  obtain r2 where sf: "scan_frac r1 = (f, r2)"
    using assms(1) si by (auto simp: scan_number_def split: prod.splits)
  have se: "scan_exp r2 = (e, r0)"
    using assms(1) si sf by (auto simp: scan_number_def split: prod.splits)
  show ?thesis
    by (simp add: scan_number_def scan_int_append [OF si assms(2)]
        scan_frac_append [OF assms(2) sf] scan_exp_append [OF assms(2) se])
qed

lemma scan_unsigned_concat: "scan_unsigned s = Some (i, r) \<Longrightarrow> i @ r = s"
  by (cases s) (auto simp: scan_unsigned_def dest: scan_digits_concat split: if_splits)

lemma scan_int_concat: "scan_int s = Some (i, r) \<Longrightarrow> i @ r = s"
  by (cases s)
     (auto simp: scan_int_def dest: scan_unsigned_concat split: if_splits option.splits)

lemma scan_frac_concat: "scan_frac s = (f, r) \<Longrightarrow> f @ r = s"
  by (auto simp: scan_frac_def dest: scan_digits_concat split: list.splits if_splits prod.splits)

lemma scan_exp_digits_concat: "scan_exp_digits s = Some (t, r) \<Longrightarrow> t @ r = s"
  by (cases s)
     (auto simp: scan_exp_digits_def dest: scan_digits_concat
       split: list.splits if_splits prod.splits)

lemma scan_exp_concat: "scan_exp s = (e, r) \<Longrightarrow> e @ r = s"
  by (cases s)
     (auto simp: scan_exp_def dest: scan_exp_digits_concat split: if_splits option.splits)

lemma scan_number_concat:
  assumes "scan_number t = Some (i, f, e, r)"
  shows "i @ f @ e @ r = t"
proof -
  obtain r1 where si: "scan_int t = Some (i, r1)"
    using assms by (auto simp: scan_number_def split: option.splits prod.splits)
  obtain r2 where sf: "scan_frac r1 = (f, r2)"
    using assms si by (auto simp: scan_number_def split: prod.splits)
  have se: "scan_exp r2 = (e, r)"
    using assms si sf by (auto simp: scan_number_def split: prod.splits)
  show ?thesis
    using scan_int_concat [OF si] scan_frac_concat [OF sf] scan_exp_concat [OF se] by simp
qed

lemma scan_int_first:
  "scan_int s = Some (i, r) \<Longrightarrow> \<exists>c t. s = c # t \<and> (c = CHR ''-'' \<or> is_digit c)"
  by (cases s) (auto simp: scan_int_def scan_unsigned_def is_digit_def split: if_splits)

lemma scan_number_first:
  "scan_number s = Some q \<Longrightarrow> \<exists>c t. s = c # t \<and> (c = CHR ''-'' \<or> is_digit c)"
  using scan_int_first [of s] by (auto simp: scan_number_def split: option.splits)

lemma scan_unsigned_str_nat: "scan_unsigned (str_nat n) = Some (str_nat n, [])"
proof -
  obtain d ds where c: "str_nat n = d # ds" using str_nat_nonempty by (cases "str_nat n") auto
  have dig: "list_all is_digit (d # ds)" using str_nat_digits [of n] c by simp
  have sd: "scan_digits (d # ds) = (d # ds, [])" by (rule scan_digits_all [OF dig])
  show ?thesis
  proof (cases "n = 0")
    case True
    then show ?thesis by (simp add: str_nat_small scan_unsigned_def)
  next
    case False
    then have "d \<noteq> CHR ''0''" using hd_str_nat_zero [of n] c by simp
    then show ?thesis using dig sd by (simp add: c scan_unsigned_def)
  qed
qed

lemma scan_int_str_nat: "scan_int (str_nat n) = Some (str_nat n, [])"
proof -
  obtain d ds where c: "str_nat n = d # ds" using str_nat_nonempty by (cases "str_nat n") auto
  have "is_digit d" using str_nat_digits [of n] c by simp
  then have "d \<noteq> CHR ''-''" by (auto simp: is_digit_def)
  then show ?thesis using scan_unsigned_str_nat [of n] c by (simp add: scan_int_def)
qed

lemma scan_int_minus_str_nat:
  "scan_int (CHR ''-'' # str_nat n) = Some (CHR ''-'' # str_nat n, [])"
  by (simp add: scan_int_def scan_unsigned_str_nat)

lemma scan_number_dumps_int: "scan_number (dumps_int i) = Some (dumps_int i, [], [], [])"
proof (cases "i < 0")
  case True
  then show ?thesis
    by (simp add: scan_number_def dumps_int_def scan_int_minus_str_nat scan_frac_def scan_exp_def)
next
  case False
  then show ?thesis
    by (simp add: scan_number_def dumps_int_def scan_int_str_nat scan_frac_def scan_exp_def)
qed

lemma int_of_text_dumps_int: "int_of_text (dumps_int i) = i"
proof (cases "i < 0")
  case True
  then show ?thesis by (simp add: int_of_text_def dumps_int_def nat_of_digits_str_nat)
next
  case False
  obtain d ds where c: "str_nat (nat i) = d # ds"
    using str_nat_nonempty by (cases "str_nat (nat i)") auto
  have "is_digit d" using str_nat_digits [of "nat i"] c by simp
  then have nm: "d \<noteq> CHR ''-''" by (auto simp: is_digit_def)
  have "nat_of_digits (d # ds) = nat i" using nat_of_digits_str_nat [of "nat i"] c by simp
  with False nm show ?thesis by (simp add: int_of_text_def dumps_int_def c)
qed

lemma parse_number_dumps_int:
  assumes "follow_ok r"
  shows "parse_number fo (dumps_int i @ r) = Some (JInt i, r)"
  using scan_number_append [OF scan_number_dumps_int assms, of i]
  by (simp add: parse_number_def int_of_text_dumps_int)

lemma parse_number_float_literal:
  assumes "float_literal t" and "follow_ok r"
  shows "parse_number fo (t @ r) = Some (JFloat (fo t), r)"
proof -
  obtain i f e where s: "scan_number t = Some (i, f, e, [])" and fe: "f \<noteq> [] \<or> e \<noteq> []"
    using assms(1) by (auto simp: float_literal_def split: option.splits)
  have t: "i @ f @ e = t" using scan_number_concat [OF s] by simp
  show ?thesis
    using scan_number_append [OF s assms(2)] fe t by (auto simp: parse_number_def)
qed

lemma starts_value_append: "starts_value s \<Longrightarrow> starts_value (s @ r)"
  by (cases s) (simp_all add: starts_value_def)

lemma skip_ws_starts_value: "starts_value s \<Longrightarrow> skip_ws s = s"
  by (cases s) (simp_all add: starts_value_def skip_ws_def)

lemma starts_value_sign_digit: "c = CHR ''-'' \<or> is_digit c \<Longrightarrow> starts_value (c # t)"
  by (auto simp: starts_value_def is_ws_def is_digit_def)

lemma starts_value_number: "scan_number s = Some q \<Longrightarrow> starts_value s"
  using scan_number_first [of s q] starts_value_sign_digit by auto

lemma starts_value_pos: "starts_value s \<Longrightarrow> 0 < length s"
  by (cases s) (simp_all add: starts_value_def)

lemma reads_backD:
  "reads_back fr fo v \<Longrightarrow> length (json_dumps fr v) \<le> n \<Longrightarrow> follow_ok r \<Longrightarrow>
   parse_value fo n (json_dumps fr v @ r) = Inr (v, r)"
  by (simp add: reads_back_def)

lemma reads_back_starts: "reads_back fr fo v \<Longrightarrow> starts_value (json_dumps fr v)"
  by (simp add: reads_back_def)

lemma reads_backI:
  assumes "starts_value (json_dumps fr v)"
    and "\<And>m r. follow_ok r \<Longrightarrow> parse_value fo (Suc m) (json_dumps fr v @ r) = Inr (v, r)"
  shows "reads_back fr fo v"
  unfolding reads_back_def
proof (intro conjI allI impI)
  show "starts_value (json_dumps fr v)" by (rule assms(1))
next
  fix n r
  assume len: "length (json_dumps fr v) \<le> n" and f: "follow_ok r"
  from starts_value_pos [OF assms(1)] len obtain m where "n = Suc m" by (cases n) auto
  then show "parse_value fo n (json_dumps fr v @ r) = Inr (v, r)" using assms(2) [OF f] by simp
qed

lemma pv_number:
  assumes "parse_number fo (t @ r) = Some res" and "scan_number t = Some q"
  shows "parse_value fo (Suc n) (t @ r) = Inr res"
proof -
  obtain c t' where ct: "t = c # t'" and c: "c = CHR ''-'' \<or> is_digit c"
    using scan_number_first [OF assms(2)] by auto
  from c have ne: "c \<noteq> CHR 0x22" "c \<noteq> CHR ''{''" "c \<noteq> CHR ''[''" "c \<noteq> CHR ''n''"
    "c \<noteq> CHR ''t''" "c \<noteq> CHR ''f''"
    by (auto simp: is_digit_def)
  have p: "parse_number fo ((c # t') @ r) = Some res" using assms(1) ct by simp
  have "parse_value fo (Suc n) ((c # t') @ r) = Inr res"
    using ne p by simp
  then show ?thesis by (simp add: ct)
qed

lemma follow_ok_simps:
  "follow_ok []" "follow_ok (CHR '','' # r)" "follow_ok (CHR '']'' # r)" "follow_ok (CHR ''}'' # r)"
  "follow_ok (CHR 0x0A # r)"
  by (simp_all add: follow_ok_def)

lemma skip_ws_simps:
  "skip_ws (CHR '','' # r) = CHR '','' # r" "skip_ws (CHR '']'' # r) = CHR '']'' # r"
  "skip_ws (CHR ''}'' # r) = CHR ''}'' # r" "skip_ws (CHR '':'' # r) = CHR '':'' # r"
  "skip_ws [] = []" "skip_ws [CHR 0x0A] = []"
  by (simp_all add: skip_ws_def is_ws_def)

lemma reads_back_atoms:
  "reads_back fr fo JNull" "reads_back fr fo (JBool b)" "reads_back fr fo (JInt i)"
  "reads_back fr fo (JStr s)"
proof -
  show "reads_back fr fo JNull"
    by (rule reads_backI) (simp_all add: starts_value_def is_ws_def)
  show "reads_back fr fo (JBool b)"
    by (rule reads_backI) (cases b; simp add: starts_value_def is_ws_def)+
  show "reads_back fr fo (JInt i)"
  proof (rule reads_backI)
    show "starts_value (json_dumps fr (JInt i))"
      using starts_value_number [OF scan_number_dumps_int] by simp
    fix m r assume "follow_ok r"
    then show "parse_value fo (Suc m) (json_dumps fr (JInt i) @ r) = Inr (JInt i, r)"
      using pv_number [OF parse_number_dumps_int scan_number_dumps_int] by simp
  qed
  show "reads_back fr fo (JStr s)"
  proof (rule reads_backI)
    show "starts_value (json_dumps fr (JStr s))"
      by (simp add: dumps_str_def starts_value_def is_ws_def)
    fix m r
    show "parse_value fo (Suc m) (json_dumps fr (JStr s) @ r) = Inr (JStr s, r)"
      using parse_string_roundtrip [of s r "[]"] by (simp add: dumps_str_def)
  qed
qed

lemma reads_back_float:
  assumes "float_roundtrip fr fo x"
  shows "reads_back fr fo (JFloat x)"
proof -
  obtain s m e where x: "x = Finite s m e"
    using assms by (cases x) (simp_all add: float_roundtrip_def)
  have d: "json_dumps fr (JFloat x) = fr x" by (simp add: x)
  have lit: "float_literal (fr x)" and rt: "fo (fr x) = x"
    using assms by (simp_all add: float_roundtrip_def)
  obtain q where q: "scan_number (fr x) = Some q"
    using lit by (auto simp: float_literal_def split: option.splits)
  show ?thesis
  proof (rule reads_backI)
    show "starts_value (json_dumps fr (JFloat x))"
      unfolding d by (rule starts_value_number [OF q])
    fix k r assume f: "follow_ok r"
    have "parse_number fo (fr x @ r) = Some (JFloat x, r)"
      using parse_number_float_literal [OF lit f, of fo] rt by simp
    from pv_number [OF this q]
    show "parse_value fo (Suc k) (json_dumps fr (JFloat x) @ r) = Inr (JFloat x, r)"
      unfolding d .
  qed
qed

lemma starts_value_join:
  assumes "xs \<noteq> []" and "\<forall>x\<in>set xs. reads_back fr fo x"
  shows "starts_value (join_comma (map (json_dumps fr) xs))"
proof (cases xs)
  case Nil
  then show ?thesis using assms(1) by simp
next
  case (Cons x ys)
  then have "reads_back fr fo x" using assms(2) by simp
  then have "starts_value (json_dumps fr x)" by (rule reads_back_starts)
  then show ?thesis using Cons by (cases ys) (simp_all add: starts_value_append)
qed

lemma parse_elems_join:
  assumes "\<forall>x\<in>set xs. reads_back fr fo x" and "xs \<noteq> []"
    and "length (join_comma (map (json_dumps fr) xs)) < n"
  shows "parse_elems fo n (join_comma (map (json_dumps fr) xs) @ CHR '']'' # r) = Inr (xs, r)"
  using assms
proof (induction xs arbitrary: n)
  case Nil
  then show ?case by simp
next
  case (Cons x ys)
  from Cons.prems(3) obtain m where n: "n = Suc m" by (cases n) auto
  have rx: "reads_back fr fo x" using Cons.prems(1) by simp
  show ?case
  proof (cases ys)
    case Nil
    have "length (json_dumps fr x) \<le> m" using Cons.prems(3) n Nil by simp
    then have "parse_value fo m (json_dumps fr x @ CHR '']'' # r) = Inr (x, CHR '']'' # r)"
      by (rule reads_backD [OF rx _ follow_ok_simps(3)])
    then show ?thesis by (simp add: n Nil skip_ws_simps)
  next
    case (Cons y zs)
    let ?rest = "join_comma (map (json_dumps fr) (y # zs)) @ CHR '']'' # r"
    have len: "length (json_dumps fr x) + 1 + length (join_comma (map (json_dumps fr) (y # zs))) < Suc m"
      using Cons.prems(3) n Cons by simp
    then have "length (json_dumps fr x) \<le> m" by simp
    then have pv: "parse_value fo m (json_dumps fr x @ CHR '','' # ?rest) = Inr (x, CHR '','' # ?rest)"
      by (rule reads_backD [OF rx _ follow_ok_simps(2)])
    have all: "\<forall>x\<in>set (y # zs). reads_back fr fo x" using Cons.prems(1) Cons by simp
    have sk: "skip_ws ?rest = ?rest"
      by (rule skip_ws_starts_value [OF starts_value_append [OF starts_value_join [OF _ all]]]) simp
    have "parse_elems fo m ?rest = Inr (y # zs, r)"
    proof (rule Cons.IH [unfolded Cons])
      show "\<forall>x\<in>set (y # zs). reads_back fr fo x" by (rule all)
      show "y # zs \<noteq> []" by simp
      show "length (join_comma (map (json_dumps fr) (y # zs))) < m" using len by simp
    qed
    then show ?thesis using pv sk by (simp add: n Cons skip_ws_simps)
  qed
qed

lemma json_dumps_JDict:
  "json_dumps fr (JDict kvs) = CHR ''{'' # join_comma (map (dumps_member fr) kvs) @ [CHR ''}'']"
proof -
  have h: "map (\<lambda>(k, s). dumps_str k @ CHR '':'' # s) (map (map_prod id (json_dumps fr)) kvs)
        = map (dumps_member fr) kvs"
    by (induction kvs) (auto simp: dumps_member_def)
  show ?thesis unfolding json_dumps.simps h by (rule refl)
qed

lemma dumps_member_starts: "\<exists>t. dumps_member fr p = CHR 0x22 # t"
  by (simp add: dumps_member_def dumps_str_def)

lemma starts_value_members:
  "kvs \<noteq> [] \<Longrightarrow> \<exists>t. join_comma (map (dumps_member fr) kvs) = CHR 0x22 # t"
proof (cases kvs)
  case (Cons p ps)
  then show ?thesis
    using dumps_member_starts [of fr p] by (cases ps) auto
qed simp

lemma parse_member:
  "parse_string (tl (dumps_member fr (k, v)) @ r) [] = Inr (k, CHR '':'' # json_dumps fr v @ r)"
  using parse_string_roundtrip [of k "CHR '':'' # json_dumps fr v @ r" "[]"]
  by (simp add: dumps_member_def dumps_str_def)

lemma parse_members_join:
  assumes "\<forall>p\<in>set kvs. reads_back fr fo (snd p)" and "kvs \<noteq> []"
    and "length (join_comma (map (dumps_member fr) kvs)) < n"
  shows "parse_members fo n (join_comma (map (dumps_member fr) kvs) @ CHR ''}'' # r) = Inr (kvs, r)"
  using assms
proof (induction kvs arbitrary: n)
  case Nil
  then show ?case by simp
next
  case (Cons p ps)
  obtain k v where p: "p = (k, v)" by (cases p)
  from Cons.prems(3) obtain m where n: "n = Suc m" by (cases n) auto
  have rv: "reads_back fr fo v" using Cons.prems(1) p by simp
  obtain t where t: "dumps_member fr (k, v) = CHR 0x22 # t"
    using dumps_member_starts by blast
  have lt: "length (dumps_member fr (k, v)) = Suc (length t)" by (simp add: t)
  have lv: "length (json_dumps fr v) \<le> length t"
    using lt by (simp add: dumps_member_def dumps_str_def)
  have ps_key: "\<And>r'. parse_string (t @ r') [] = Inr (k, CHR '':'' # json_dumps fr v @ r')"
    using parse_member [of fr k v] t by simp
  have skv: "\<And>r'. skip_ws (json_dumps fr v @ r') = json_dumps fr v @ r'"
    by (rule skip_ws_starts_value [OF starts_value_append [OF reads_back_starts [OF rv]]])
  show ?case
  proof (cases ps)
    case Nil
    have "length (json_dumps fr v) \<le> m" using Cons.prems(3) n Nil p lt lv by simp
    then have "parse_value fo m (json_dumps fr v @ CHR ''}'' # r) = Inr (v, CHR ''}'' # r)"
      by (rule reads_backD [OF rv _ follow_ok_simps(4)])
    then show ?thesis
      using ps_key [of "CHR ''}'' # r"] skv [of "CHR ''}'' # r"]
      by (simp add: n Nil p t skip_ws_simps)
  next
    case (Cons q qs)
    let ?rest = "join_comma (map (dumps_member fr) (q # qs)) @ CHR ''}'' # r"
    have len: "length (dumps_member fr (k, v)) + 1
        + length (join_comma (map (dumps_member fr) (q # qs))) < Suc m"
      using Cons.prems(3) n Cons p by simp
    then have "length (json_dumps fr v) \<le> m" using lt lv by simp
    then have pv: "parse_value fo m (json_dumps fr v @ CHR '','' # ?rest) = Inr (v, CHR '','' # ?rest)"
      by (rule reads_backD [OF rv _ follow_ok_simps(2)])
    obtain u where u: "join_comma (map (dumps_member fr) (q # qs)) = CHR 0x22 # u"
      using starts_value_members [of "q # qs" fr] by auto
    have sk: "skip_ws ?rest = ?rest"
      unfolding u by (simp add: skip_ws_def is_ws_def)
    have "parse_members fo m ?rest = Inr (q # qs, r)"
    proof (rule Cons.IH [unfolded Cons])
      show "\<forall>p\<in>set (q # qs). reads_back fr fo (snd p)" using Cons.prems(1) Cons by simp
      show "q # qs \<noteq> []" by simp
      show "length (join_comma (map (dumps_member fr) (q # qs))) < m" using len by simp
    qed
    then show ?thesis
      using pv sk ps_key [of "CHR '','' # ?rest"] skv [of "CHR '','' # ?rest"]
      by (simp add: n Cons p t skip_ws_simps)
  qed
qed

lemma update_fresh: "k \<notin> fst ` set al \<Longrightarrow> AList.update k v al = al @ [(k, v)]"
  by (induction al) auto

lemma fold_update_distinct:
  "distinct (map fst (acc @ ps)) \<Longrightarrow> fold (\<lambda>(k, v). AList.update k v) ps acc = acc @ ps"
proof (induction ps arbitrary: acc)
  case Nil
  show ?case by simp
next
  case (Cons p ps)
  obtain k v where p: "p = (k, v)" by (cases p)
  have fresh: "k \<notin> fst ` set acc" using Cons.prems p by auto
  have "distinct (map fst ((acc @ [(k, v)]) @ ps))" using Cons.prems p by simp
  then have "fold (\<lambda>(k, v). AList.update k v) ps (acc @ [(k, v)]) = (acc @ [(k, v)]) @ ps"
    by (rule Cons.IH)
  then show ?case by (simp add: p update_fresh [OF fresh])
qed

lemma dict_of_pairs_distinct: "distinct (map fst ps) \<Longrightarrow> dict_of_pairs ps = ps"
  using fold_update_distinct [of "[]" ps] by (simp add: dict_of_pairs_def)

lemma reads_back_list:
  assumes "\<forall>x\<in>set xs. reads_back fr fo x"
  shows "reads_back fr fo (JList xs)"
  unfolding reads_back_def
proof (intro conjI allI impI)
  show "starts_value (json_dumps fr (JList xs))" by (simp add: starts_value_def is_ws_def)
next
  fix n r
  assume len: "length (json_dumps fr (JList xs)) \<le> n"
  then obtain m where n: "n = Suc m" by (cases n) auto
  show "parse_value fo n (json_dumps fr (JList xs) @ r) = Inr (JList xs, r)"
  proof (cases "xs = []")
    case True
    then show ?thesis by (simp add: n skip_ws_simps)
  next
    case False
    let ?j = "join_comma (map (json_dumps fr) xs)"
    have sv: "starts_value (?j @ CHR '']'' # r)"
      by (rule starts_value_append [OF starts_value_join [OF False assms]])
    then obtain c t where ct: "?j @ CHR '']'' # r = c # t" and c: "c \<noteq> CHR '']''"
      by (cases "?j @ CHR '']'' # r") (auto simp: starts_value_def)
    have sk: "skip_ws (c # t) = c # t"
      using skip_ws_starts_value [OF sv] ct by simp
    have "length ?j < m" using len n by simp
    then have "parse_elems fo m (?j @ CHR '']'' # r) = Inr (xs, r)"
      by (rule parse_elems_join [OF assms False])
    then have pe: "parse_elems fo m (c # t) = Inr (xs, r)" by (simp only: ct)
    have "parse_value fo (Suc m) (CHR ''['' # c # t) = Inr (JList xs, r)"
      using sk c pe by simp
    then show ?thesis using ct by (simp add: n)
  qed
qed

lemma reads_back_dict:
  assumes "\<forall>p\<in>set kvs. reads_back fr fo (snd p)" and "distinct (map fst kvs)"
  shows "reads_back fr fo (JDict kvs)"
  unfolding reads_back_def
proof (intro conjI allI impI)
  show "starts_value (json_dumps fr (JDict kvs))"
    by (simp only: json_dumps_JDict) (simp add: starts_value_def is_ws_def)
next
  fix n r
  assume len: "length (json_dumps fr (JDict kvs)) \<le> n"
  then obtain m where n: "n = Suc m" by (cases n) auto
  let ?j = "join_comma (map (dumps_member fr) kvs)"
  have d: "json_dumps fr (JDict kvs) @ r = CHR ''{'' # ?j @ CHR ''}'' # r"
    by (simp only: json_dumps_JDict) simp
  show "parse_value fo n (json_dumps fr (JDict kvs) @ r) = Inr (JDict kvs, r)"
  proof (cases "kvs = []")
    case True
    then show ?thesis unfolding d by (simp add: n skip_ws_simps)
  next
    case False
    obtain u where u: "?j = CHR 0x22 # u" using starts_value_members [OF False] by auto
    have sk: "skip_ws (CHR 0x22 # u @ CHR ''}'' # r) = CHR 0x22 # u @ CHR ''}'' # r"
      by (simp add: skip_ws_def is_ws_def)
    have "length ?j < m" using len n by (simp only: json_dumps_JDict) simp
    then have "parse_members fo m (?j @ CHR ''}'' # r) = Inr (kvs, r)"
      by (rule parse_members_join [OF assms(1) False])
    then have pm: "parse_members fo m (CHR 0x22 # u @ CHR ''}'' # r) = Inr (kvs, r)"
      by (simp only: u append_Cons)
    have "parse_value fo (Suc m) (CHR ''{'' # CHR 0x22 # u @ CHR ''}'' # r) = Inr (JDict kvs, r)"
      using sk pm dict_of_pairs_distinct [OF assms(2)] by simp
    then show ?thesis unfolding d n u by simp
  qed
qed

lemma wf_reads_back: "wf_json (float_roundtrip fr fo) v \<Longrightarrow> reads_back fr fo v"
proof (induction v)
  case (JFloat x)
  then show ?case by (intro reads_back_float) simp
next
  case (JList xs)
  then show ?case by (intro reads_back_list) simp
next
  case (JTuple xs)
  then show ?case by simp
next
  case (JDict kvs)
  have "\<forall>p\<in>set kvs. reads_back fr fo (snd p)"
  proof
    fix p assume p: "p \<in> set kvs"
    obtain k v where kv: "p = (k, v)" by (cases p)
    have "wf_json (float_roundtrip fr fo) v" using JDict.prems p kv by auto
    moreover have "v \<in> Basic_BNFs.snds p" by (simp add: kv)
    ultimately show "reads_back fr fo (snd p)" using JDict.IH [OF p] kv by simp
  qed
  then show ?case using JDict.prems by (intro reads_back_dict) simp_all
qed (simp_all add: reads_back_atoms)

lemma json_loads_dumps:
  assumes "wf_json (float_roundtrip fr fo) v"
  shows "json_loads fo (json_dumps fr v) = Inr v"
    and "json_loads fo (json_dumps fr v @ [CHR 0x0A]) = Inr v"
proof -
  have rb: "reads_back fr fo v" by (rule wf_reads_back [OF assms])
  have sk: "\<And>r. skip_ws (json_dumps fr v @ r) = json_dumps fr v @ r"
    by (rule skip_ws_starts_value [OF starts_value_append [OF reads_back_starts [OF rb]]])
  have "parse_value fo (2 * length (json_dumps fr v) + 2) (json_dumps fr v @ []) = Inr (v, [])"
    by (rule reads_backD [OF rb _ follow_ok_simps(1)]) simp
  then show "json_loads fo (json_dumps fr v) = Inr v"
    using sk [of "[]"] by (simp add: json_loads_def skip_ws_simps)
  have "parse_value fo (2 * length (json_dumps fr v @ [CHR 0x0A]) + 2) (json_dumps fr v @ [CHR 0x0A])
          = Inr (v, [CHR 0x0A])"
    by (rule reads_backD [OF rb _ follow_ok_simps(5)]) simp
  then show "json_loads fo (json_dumps fr v @ [CHR 0x0A]) = Inr v"
    using sk [of "[CHR 0x0A]"] by (simp add: json_loads_def skip_ws_simps del: length_append)
qed

section \<open>The bound on the recursion of the parser\<close>

lemma length_skip_ws: "length (skip_ws s) \<le> length s"
  by (simp add: skip_ws_def length_dropWhile_le)

lemma skip_ws_Cons_le: "skip_ws s = c # r \<Longrightarrow> Suc (length r) \<le> length s"
  using length_skip_ws [of s] by simp

lemma parse_string_bounds:
  "parse_string s acc \<noteq> Inl OutOfFuel \<and>
   (\<forall>x r. parse_string s acc = Inr (x, r) \<longrightarrow> length r < length s)"
proof (induction s arbitrary: acc rule: length_induct)
  case (1 s)
  have fuel: "\<And>t a. length t < length s \<Longrightarrow> parse_string t a \<noteq> Inl OutOfFuel"
    using 1 by blast
  have short: "\<And>t a x r. length t < length s \<Longrightarrow> parse_string t a = Inr (x, r)
      \<Longrightarrow> length r < length s"
    using 1 by (meson less_trans)
  show ?case
  proof (cases s)
    case Nil
    then show ?thesis by simp
  next
    case (Cons c cs)
    have l1: "length cs < length s" using Cons by simp
    show ?thesis
    proof (cases "c = CHR 0x22 \<or> c \<noteq> CHR 0x5C")
      case True
      then show ?thesis
        using Cons fuel [OF l1] short [OF l1] by (auto split: if_splits)
    next
      case False
      then have c: "c \<noteq> CHR 0x22" "c = CHR 0x5C" by auto
      show ?thesis
      proof (cases cs)
        case Nil
        then show ?thesis using Cons c by simp
      next
        case (Cons e cs1)
        note cs = this
        have l2: "length cs1 < length s" using \<open>s = c # cs\<close> cs by simp
        show ?thesis
        proof (cases "e = CHR ''u''")
          case False
          then show ?thesis
            using \<open>s = c # cs\<close> cs c fuel [OF l2] short [OF l2]
            by (auto split: option.splits)
        next
          case True
          show ?thesis
          proof (cases "\<exists>h1 h2 h3 h4 cs2. cs1 = h1 # h2 # h3 # h4 # cs2")
            case False
            then show ?thesis
              using \<open>s = c # cs\<close> cs c True by (auto split: list.splits)
          next
            case ex: True
            then obtain h1 h2 h3 h4 cs2 where cs1: "cs1 = h1 # h2 # h3 # h4 # cs2" by blast
            have l3: "length cs2 < length s" using \<open>s = c # cs\<close> cs cs1 by simp
            show ?thesis
              using \<open>s = c # cs\<close> cs c True cs1 fuel [OF l3] short [OF l3]
              by (auto split: option.splits)
          qed
        qed
      qed
    qed
  qed
qed

lemma parse_string_shorter: "parse_string s acc = Inr (x, r) \<Longrightarrow> length r < length s"
  using parse_string_bounds [of s acc] by blast

lemma parse_string_fuel: "parse_string s acc \<noteq> Inl OutOfFuel"
  using parse_string_bounds [of s acc] by blast

lemma scan_int_nonempty: "scan_int s = Some (i, r) \<Longrightarrow> i \<noteq> []"
  by (cases s)
     (auto simp: scan_int_def scan_unsigned_def scan_digits_def split: if_splits option.splits)

lemma parse_number_shorter:
  assumes "parse_number fo s = Some (v, r)"
  shows "length r < length s"
proof -
  obtain i f e where sn: "scan_number s = Some (i, f, e, r)"
    using assms by (auto simp: parse_number_def split: option.splits if_splits)
  obtain r1 where si: "scan_int s = Some (i, r1)"
    using sn by (auto simp: scan_number_def split: option.splits prod.splits)
  have "i @ f @ e @ r = s" by (rule scan_number_concat [OF sn])
  then have "length s = length i + length f + length e + length r" by (metis length_append add.assoc)
  moreover have "0 < length i" using scan_int_nonempty [OF si] by simp
  ultimately show ?thesis by simp
qed

lemma parse_constant_shorter:
  "parse_constant fo s = Inr (v, r) \<Longrightarrow> length r < length s"
proof -
  assume a: "parse_constant fo s = Inr (v, r)"
  have t: "\<And>n t. take n s = t \<Longrightarrow> 0 < length t \<Longrightarrow> length (drop n s) < length s"
    by (metis append_take_drop_id length_append less_add_same_cancel2)
  from a show ?thesis
    by (auto simp: parse_constant_def split: if_splits intro!: t)
qed

lemma parse_constant_fuel: "parse_constant fo s \<noteq> Inl OutOfFuel"
  by (simp add: parse_constant_def)

lemma drop_shorter: "take k s = t \<Longrightarrow> 0 < length t \<Longrightarrow> length (drop k s) < length s"
  by (metis append_take_drop_id length_append less_add_same_cancel2)

lemma parse_shorter:
  "(\<forall>s v r. parse_value fo n s = Inr (v, r) \<longrightarrow> length r < length s) \<and>
   (\<forall>s vs r. parse_elems fo n s = Inr (vs, r) \<longrightarrow> length r < length s) \<and>
   (\<forall>s ps r. parse_members fo n s = Inr (ps, r) \<longrightarrow> length r < length s)"
proof (induction n)
  case 0
  show ?case by simp
next
  case (Suc n)
  have ihv: "\<And>s v r. parse_value fo n s = Inr (v, r) \<Longrightarrow> length r < length s"
    and ihe: "\<And>s vs r. parse_elems fo n s = Inr (vs, r) \<Longrightarrow> length r < length s"
    and ihm: "\<And>s ps r. parse_members fo n s = Inr (ps, r) \<Longrightarrow> length r < length s"
    using Suc by blast+
  have v: "length r < length s" if a: "parse_value fo (Suc n) s = Inr (v, r)" for s v r
  proof (cases s)
    case Nil
    then show ?thesis using a by simp
  next
    case (Cons c rest)
    consider (str) "c = CHR 0x22" | (obj) "c \<noteq> CHR 0x22" "c = CHR ''{''"
      | (arr) "c \<noteq> CHR 0x22" "c \<noteq> CHR ''{''" "c = CHR ''[''"
      | (other) "c \<noteq> CHR 0x22" "c \<noteq> CHR ''{''" "c \<noteq> CHR ''[''"
      by blast
    then show ?thesis
    proof cases
      case str
      then show ?thesis
        using a Cons by (auto split: sum.splits dest: parse_string_shorter)
    next
      case obj
      then show ?thesis
        using a Cons
        by (auto split: sum.splits list.splits if_splits dest!: ihm skip_ws_Cons_le)
    next
      case arr
      then show ?thesis
        using a Cons
        by (auto split: sum.splits list.splits if_splits dest!: ihe skip_ws_Cons_le)
    next
      case other
      have lit: "\<And>k t. take k (c # rest) = t \<Longrightarrow> 0 < length t
          \<Longrightarrow> length (drop k (c # rest)) < length (c # rest)"
        by (rule drop_shorter)
      from other a Cons show ?thesis
        using lit [of 4 "''null''"] lit [of 4 "''true''"] lit [of 5 "''false''"]
        by (auto simp del: take_Suc_Cons drop_Suc_Cons take.simps drop.simps
            split: option.splits if_splits
            dest: parse_number_shorter parse_constant_shorter)
    qed
  qed
  have e: "length r < length s" if a: "parse_elems fo (Suc n) s = Inr (vs, r)" for s vs r
  proof -
    obtain v r0 where pv: "parse_value fo n s = Inr (v, r0)"
      using a by (auto split: sum.splits)
    have l0: "length r0 < length s" by (rule ihv [OF pv])
    obtain c r1 where sk: "skip_ws r0 = c # r1"
      using a pv by (auto split: list.splits)
    have l1: "Suc (length r1) \<le> length r0" by (rule skip_ws_Cons_le [OF sk])
    show ?thesis
    proof (cases "c = CHR '',''")
      case True
      then obtain vs' where pe: "parse_elems fo n (skip_ws r1) = Inr (vs', r)"
        using a pv sk by (auto split: sum.splits)
      have "length r < length (skip_ws r1)" by (rule ihe [OF pe])
      then show ?thesis using l0 l1 length_skip_ws [of r1] by simp
    next
      case False
      then have "r = r1" using a pv sk by (auto split: if_splits)
      then show ?thesis using l0 l1 by simp
    qed
  qed
  have m: "length r < length s" if a: "parse_members fo (Suc n) s = Inr (ps, r)" for s ps r
  proof -
    obtain rest where s: "s = CHR 0x22 # rest"
      using a by (cases s) (auto split: if_splits)
    obtain k r1 where pk: "parse_string rest [] = Inr (k, r1)"
      using a s by (auto split: sum.splits)
    have l1: "length r1 < length rest" by (rule parse_string_shorter [OF pk])
    obtain r2 where sk1: "skip_ws r1 = CHR '':'' # r2"
      using a s pk by (auto split: list.splits if_splits)
    have l2: "Suc (length r2) \<le> length r1" by (rule skip_ws_Cons_le [OF sk1])
    obtain v r3 where pv: "parse_value fo n (skip_ws r2) = Inr (v, r3)"
      using a s pk sk1 by (auto split: sum.splits)
    have l3: "length r3 < length (skip_ws r2)" by (rule ihv [OF pv])
    obtain c r4 where sk2: "skip_ws r3 = c # r4"
      using a s pk sk1 pv by (auto split: list.splits)
    have l4: "Suc (length r4) \<le> length r3" by (rule skip_ws_Cons_le [OF sk2])
    have base: "length r4 < length s"
      using s l1 l2 l3 l4 length_skip_ws [of r2] by simp
    show ?thesis
    proof (cases "c = CHR '',''")
      case True
      then obtain ps' where pm: "parse_members fo n (skip_ws r4) = Inr (ps', r)"
        using a s pk sk1 pv sk2 by (auto split: sum.splits)
      have "length r < length (skip_ws r4)" by (rule ihm [OF pm])
      then show ?thesis using base length_skip_ws [of r4] by simp
    next
      case False
      then have "r = r4" using a s pk sk1 pv sk2 by (auto split: if_splits)
      then show ?thesis using base by simp
    qed
  qed
  from v e m show ?case by blast
qed

lemma parse_value_shorter: "parse_value fo n s = Inr (v, r) \<Longrightarrow> length r < length s"
  using parse_shorter [of fo n] by blast

lemma parse_fuel:
  "(\<forall>s. 2 * length s + 1 \<le> n \<longrightarrow> parse_value fo n s \<noteq> Inl OutOfFuel) \<and>
   (\<forall>s. 2 * length s + 2 \<le> n \<longrightarrow> parse_elems fo n s \<noteq> Inl OutOfFuel) \<and>
   (\<forall>s. 2 * length s + 2 \<le> n \<longrightarrow> parse_members fo n s \<noteq> Inl OutOfFuel)"
proof (induction n)
  case 0
  show ?case by simp
next
  case (Suc n)
  have ihv: "\<And>s. 2 * length s + 1 \<le> n \<Longrightarrow> parse_value fo n s \<noteq> Inl OutOfFuel"
    and ihe: "\<And>s. 2 * length s + 2 \<le> n \<Longrightarrow> parse_elems fo n s \<noteq> Inl OutOfFuel"
    and ihm: "\<And>s. 2 * length s + 2 \<le> n \<Longrightarrow> parse_members fo n s \<noteq> Inl OutOfFuel"
    using Suc by blast+
  have v: "parse_value fo (Suc n) s \<noteq> Inl OutOfFuel" if a: "2 * length s + 1 \<le> Suc n" for s
  proof (cases s)
    case Nil
    then show ?thesis by simp
  next
    case (Cons c rest)
    have inner: "parse_members fo n t \<noteq> Inl OutOfFuel" "parse_elems fo n t \<noteq> Inl OutOfFuel"
      if "skip_ws rest = t" for t
    proof -
      have "length t \<le> length rest" using that length_skip_ws [of rest] by simp
      then have "2 * length t + 2 \<le> n" using a Cons by simp
      then show "parse_members fo n t \<noteq> Inl OutOfFuel" "parse_elems fo n t \<noteq> Inl OutOfFuel"
        by (rule ihm, rule ihe)
    qed
    consider (str) "c = CHR 0x22" | (obj) "c \<noteq> CHR 0x22" "c = CHR ''{''"
      | (arr) "c \<noteq> CHR 0x22" "c \<noteq> CHR ''{''" "c = CHR ''[''"
      | (other) "c \<noteq> CHR 0x22" "c \<noteq> CHR ''{''" "c \<noteq> CHR ''[''"
      by blast
    then show ?thesis
    proof cases
      case str
      then show ?thesis
        using Cons parse_string_fuel [of rest "[]"] by (auto split: sum.splits)
    next
      case obj
      show ?thesis
      proof (cases "skip_ws rest")
        case Nil
        then show ?thesis using obj Cons by simp
      next
        case (Cons c1 r1)
        then show ?thesis
          using obj \<open>s = c # rest\<close> inner(1) [OF Cons] by (auto split: sum.splits)
      qed
    next
      case arr
      show ?thesis
      proof (cases "skip_ws rest")
        case Nil
        then show ?thesis using arr Cons by simp
      next
        case (Cons c1 r1)
        then show ?thesis
          using arr \<open>s = c # rest\<close> inner(2) [OF Cons] by (auto split: sum.splits)
      qed
    next
      case other
      then show ?thesis
        using Cons parse_constant_fuel [of fo "c # rest"]
        by (auto simp del: take_Suc_Cons drop_Suc_Cons take.simps drop.simps
            split: option.splits)
    qed
  qed
  have e: "parse_elems fo (Suc n) s \<noteq> Inl OutOfFuel" if a: "2 * length s + 2 \<le> Suc n" for s
  proof (cases "parse_value fo n s")
    case (Inl err)
    have "parse_value fo n s \<noteq> Inl OutOfFuel" using a by (intro ihv) simp
    then show ?thesis using Inl by auto
  next
    case (Inr p)
    obtain v r0 where p: "p = (v, r0)" by (cases p)
    have l0: "length r0 < length s" using parse_value_shorter Inr p by blast
    show ?thesis
    proof (cases "skip_ws r0")
      case Nil
      then show ?thesis using Inr p by simp
    next
      case (Cons c r1)
      have "length (skip_ws r1) \<le> length r1" by (rule length_skip_ws)
      moreover have "Suc (length r1) \<le> length r0" by (rule skip_ws_Cons_le [OF Cons])
      ultimately have "2 * length (skip_ws r1) + 2 \<le> n" using a l0 by simp
      then have "parse_elems fo n (skip_ws r1) \<noteq> Inl OutOfFuel" by (rule ihe)
      then show ?thesis using Inr p Cons by (auto split: sum.splits)
    qed
  qed
  have m: "parse_members fo (Suc n) s \<noteq> Inl OutOfFuel" if a: "2 * length s + 2 \<le> Suc n" for s
  proof (cases "\<exists>rest. s = CHR 0x22 # rest")
    case False
    then show ?thesis by (cases s) auto
  next
    case True
    then obtain rest where s: "s = CHR 0x22 # rest" by blast
    show ?thesis
    proof (cases "parse_string rest []")
      case (Inl err)
      then show ?thesis using s parse_string_fuel [of rest "[]"] by auto
    next
      case (Inr p)
      obtain k r1 where p: "p = (k, r1)" by (cases p)
      have l1: "length r1 < length rest" using parse_string_shorter Inr p by blast
      show ?thesis
      proof (cases "\<exists>r2. skip_ws r1 = CHR '':'' # r2")
        case False
        then show ?thesis using s Inr p by (auto split: list.splits)
      next
        case True
        then obtain r2 where sk1: "skip_ws r1 = CHR '':'' # r2" by blast
        have l2: "Suc (length r2) \<le> length r1" by (rule skip_ws_Cons_le [OF sk1])
        have l2': "length (skip_ws r2) \<le> length r2" by (rule length_skip_ws)
        have "2 * length (skip_ws r2) + 1 \<le> n" using a s l1 l2 l2' by simp
        then have nv: "parse_value fo n (skip_ws r2) \<noteq> Inl OutOfFuel" by (rule ihv)
        show ?thesis
        proof (cases "parse_value fo n (skip_ws r2)")
          case (Inl err)
          then show ?thesis using s Inr p sk1 nv by auto
        next
          case pv: (Inr q)
          obtain v r3 where q: "q = (v, r3)" by (cases q)
          have l3: "length r3 < length (skip_ws r2)" using parse_value_shorter pv q by blast
          show ?thesis
          proof (cases "skip_ws r3")
            case Nil
            then show ?thesis using s Inr p sk1 pv q by simp
          next
            case (Cons c r4)
            have "Suc (length r4) \<le> length r3" by (rule skip_ws_Cons_le [OF Cons])
            moreover have "length (skip_ws r4) \<le> length r4" by (rule length_skip_ws)
            ultimately have "2 * length (skip_ws r4) + 2 \<le> n" using a s l1 l2 l2' l3 by simp
            then have "parse_members fo n (skip_ws r4) \<noteq> Inl OutOfFuel" by (rule ihm)
            then show ?thesis using s Inr p sk1 pv q Cons by (auto split: sum.splits)
          qed
        qed
      qed
    qed
  qed
  from v e m show ?case by blast
qed

lemma json_loads_fuel: "json_loads fo s \<noteq> Inl OutOfFuel"
proof -
  have "2 * length (skip_ws s) + 1 \<le> 2 * length s + 2" using length_skip_ws [of s] by simp
  then have "parse_value fo (2 * length s + 2) (skip_ws s) \<noteq> Inl OutOfFuel"
    using parse_fuel [of "2 * length s + 2" fo] by blast
  then show ?thesis
    by (cases "parse_value fo (2 * length s + 2) (skip_ws s)")
       (auto simp: json_loads_def simp del: parse_value.simps split: if_splits)
qed

section \<open>Decoding\<close>








section \<open>The round trip of a message\<close>

lemma catalog_payload_dict: "catalog m \<Longrightarrow> \<exists>kvs. msg_data m = JDict kvs"
  by (induction rule: catalog.induct)
     (simp_all add: cmd_connect_def cmd_nick_def cmd_list_def cmd_join_def cmd_leave_def
        cmd_quit_def cmd_help_def cmd_msg_def resp_ok_def resp_error_def resp_connected_def
        resp_list_channels_def resp_help_def evt_message_def evt_user_joined_def
        evt_user_left_def evt_server_shutdown_def)

lemma MessageType_of_value: "MessageType_of (JStr (MessageType_value t)) = Inr t"
  by (cases t) simp_all

lemma from_dict_to_dict: "msg_data m = JDict kvs \<Longrightarrow> from_dict (to_dict m) = Inr m"
  by (cases m; cases "kvs = []")
     (simp_all add: from_dict_def to_dict_def MessageType_of_value del: MessageType_of.simps)

lemma wf_to_dict:
  "wf_json ok (msg_name m) \<Longrightarrow> wf_json ok (msg_data m) \<Longrightarrow> wf_json ok (to_dict m)"
  by (simp add: to_dict_def)

lemma float_roundtrip_sample:
  "float_roundtrip repr_sample float_sample (Finite False 3464611161 (- 1))"
  by (simp add: float_roundtrip_def repr_sample_def float_sample_def float_literal_def
      scan_number_def scan_int_def scan_unsigned_def scan_digits_def scan_frac_def
      scan_exp_def is_digit_def)

lemma sample_loads_agrees: "json_loads float_sample s = Inr v \<Longrightarrow> sample_loads s = Some v"
  by (simp add: sample_loads_def)

text \<open>
  C1 (as amended). For every message built by a constructor of the catalog, whose name
  and payload are made of None, booleans, integers, finite floats, strings, lists and
  dictionaries with string keys, decoding the encoded wire line, with its trailing newline
  stripped or left in place, gives back the message: the same kind, the same name and the
  same payload. The two float conversions of the library are parameters, taken with the
  guarantee that the text of a finite float reads back as that float, and the parser is
  any that returns the values that \<open>json_loads\<close> reads.
\<close>

theorem encode_decode_roundtrip:
  assumes "catalog m"
    and "wf_json (float_roundtrip float_repr float_of) (msg_name m)"
    and "wf_json (float_roundtrip float_repr float_of) (msg_data m)"
    and "\<forall>s v. json_loads float_of s = Inr v \<longrightarrow> loads s = Some v"
  shows "decode loads (butlast (encode (json_dumps float_repr) m)) = Inr m
       \<and> decode loads (encode (json_dumps float_repr) m) = Inr m"
proof -
  obtain kvs where d: "msg_data m = JDict kvs" using catalog_payload_dict [OF assms(1)] by blast
  have wf: "wf_json (float_roundtrip float_repr float_of) (to_dict m)"
    by (rule wf_to_dict [OF assms(2,3)])
  have "json_loads float_of (json_dumps float_repr (to_dict m)) = Inr (to_dict m)"
    by (rule json_loads_dumps(1) [OF wf])
  then have a: "loads (json_dumps float_repr (to_dict m)) = Some (to_dict m)"
    using assms(4) by blast
  have "json_loads float_of (json_dumps float_repr (to_dict m) @ [CHR 0x0A]) = Inr (to_dict m)"
    by (rule json_loads_dumps(2) [OF wf])
  then have b: "loads (json_dumps float_repr (to_dict m) @ [CHR 0x0A]) = Some (to_dict m)"
    using assms(4) by blast
  show ?thesis
    by (simp add: decode_def encode_def a b from_dict_to_dict [OF d])
qed

theorem encode_decode_roundtrip_witness:
  "catalog (evt_message (JStr ''#cats'') (JStr ''ann'') (JStr ''hi'') JNull
              (JFloat (Finite False 3464611161 (- 1))))
   \<and> decode sample_loads (butlast (encode (json_dumps repr_sample)
        (evt_message (JStr ''#cats'') (JStr ''ann'') (JStr ''hi'') JNull
           (JFloat (Finite False 3464611161 (- 1))))))
     = Inr (evt_message (JStr ''#cats'') (JStr ''ann'') (JStr ''hi'') JNull
              (JFloat (Finite False 3464611161 (- 1))))"
proof -
  let ?m = "evt_message (JStr ''#cats'') (JStr ''ann'') (JStr ''hi'') JNull
              (JFloat (Finite False 3464611161 (- 1)))"
  have c: "catalog ?m" by (rule catalog.intros)
  have n: "wf_json (float_roundtrip repr_sample float_sample) (msg_name ?m)"
    by (simp add: evt_message_def)
  have p: "wf_json (float_roundtrip repr_sample float_sample) (msg_data ?m)"
    by (simp add: evt_message_def float_roundtrip_sample)
  have l: "\<forall>s v. json_loads float_sample s = Inr v \<longrightarrow> sample_loads s = Some v"
    by (simp add: sample_loads_agrees)
  from c encode_decode_roundtrip [OF c n p l] show ?thesis by simp
qed

text \<open>
  C1 as stated fails: \<^verbatim>\<open>resp_help(("/list", "/quit"))\<close> has a tuple in its payload,
  which \<^verbatim>\<open>json.dumps\<close> accepts and writes as a list; decoding the line gives a message whose
  payload holds the list, not the tuple.
\<close>

theorem tuple_comes_back_as_list:
  "catalog (resp_help (JTuple [JStr ''/list'', JStr ''/quit'']))
   \<and> decode sample_loads (butlast (encode (json_dumps repr_sample)
      (resp_help (JTuple [JStr ''/list'', JStr ''/quit'']))))
     = Inr (resp_help (JList [JStr ''/list'', JStr ''/quit'']))
   \<and> resp_help (JList [JStr ''/list'', JStr ''/quit''])
       \<noteq> resp_help (JTuple [JStr ''/list'', JStr ''/quit''])"
proof -
  let ?t = "resp_help (JTuple [JStr ''/list'', JStr ''/quit''])"
  let ?l = "resp_help (JList [JStr ''/list'', JStr ''/quit''])"
  have same: "json_dumps repr_sample (to_dict ?t) = json_dumps repr_sample (to_dict ?l)"
    by (simp add: to_dict_def resp_help_def resp_ok_def dict_update_def)
  have wf: "wf_json (float_roundtrip repr_sample float_sample) (to_dict ?l)"
    by (simp add: to_dict_def resp_help_def resp_ok_def dict_update_def)
  have "json_loads float_sample (json_dumps repr_sample (to_dict ?l)) = Inr (to_dict ?l)"
    by (rule json_loads_dumps(1) [OF wf])
  then have l: "sample_loads (json_dumps repr_sample (to_dict ?t)) = Some (to_dict ?l)"
    by (simp only: same sample_loads_agrees)
  have d: "msg_data ?l = JDict [(''status'', JStr ''ok''),
      (''commands'', JList [JStr ''/list'', JStr ''/quit''])]"
    by (simp add: resp_help_def resp_ok_def dict_update_def)
  have "decode sample_loads (butlast (encode (json_dumps repr_sample) ?t)) = Inr ?l"
    by (simp add: decode_def encode_def l from_dict_to_dict [OF d])
  moreover have "?l \<noteq> ?t"
    by (simp add: resp_help_def resp_ok_def dict_update_def)
  moreover have "catalog ?t" by (rule catalog.intros)
  ultimately show ?thesis by (intro conjI)
qed

section \<open>Strings\<close>

lemma list_all_dropWhile: "list_all P (dropWhile P xs) \<Longrightarrow> list_all P xs"
  by (induction xs) (auto split: if_splits)

lemma dropWhile_all: "list_all P xs \<Longrightarrow> dropWhile P xs = []"
  by (induction xs) auto

lemma strip_empty_iff: "strip t = [] \<longleftrightarrow> list_all isspace_char t"
proof
  assume "strip t = []"
  then have "list_all isspace_char (dropWhile isspace_char t)"
    by (simp add: strip_def list_all_iff)
  then show "list_all isspace_char t"
    by (rule list_all_dropWhile)
next
  assume "list_all isspace_char t"
  then have h: "dropWhile isspace_char t = []" by (rule dropWhile_all)
  show "strip t = []" by (simp only: strip_def h rev.simps dropWhile.simps)
qed

lemma list_all_filter_neq:
  "list_all P (filter (\<lambda>c. c \<noteq> u) n) \<longleftrightarrow> (\<forall>c\<in>set n. P c \<or> c = u)"
  by (induction n) auto

lemma filter_neq_nonempty:
  "filter (\<lambda>c. c \<noteq> u) n \<noteq> [] \<longleftrightarrow> (\<exists>c\<in>set n. c \<noteq> u)"
  by (induction n) auto

lemma alnum_or_sep:
  "\<not> P u \<Longrightarrow>
   ((\<exists>c\<in>S. c \<noteq> u) \<and> (\<forall>c\<in>S. P c \<or> c = u)) \<longleftrightarrow> ((\<forall>c\<in>S. P c \<or> c = u) \<and> (\<exists>c\<in>S. P c))"
  by auto

lemma not_alnum_or_sep:
  "((\<forall>c\<in>S. P c \<or> c = u) \<and> (\<exists>c\<in>S. P c)) \<Longrightarrow> \<not> (\<exists>c\<in>S. \<not> P c \<and> c \<noteq> u)"
  by auto

lemma isalnum_remove_underscores:
  "isalnum (remove_underscores n) \<longleftrightarrow>
     (\<forall>c\<in>set n. isalnum_char c \<or> c = CHR ''_'') \<and> (\<exists>c\<in>set n. isalnum_char c)"
proof -
  have u: "\<not> isalnum_char CHR ''_''" by (simp add: isalnum_char_def)
  have "isalnum (remove_underscores n) \<longleftrightarrow>
          (\<exists>c\<in>set n. c \<noteq> CHR ''_'') \<and> (\<forall>c\<in>set n. isalnum_char c \<or> c = CHR ''_'')"
    unfolding isalnum_def remove_underscores_def list_all_filter_neq filter_neq_nonempty ..
  also have "\<dots> \<longleftrightarrow> (\<forall>c\<in>set n. isalnum_char c \<or> c = CHR ''_'') \<and> (\<exists>c\<in>set n. isalnum_char c)"
    by (rule alnum_or_sep [of isalnum_char "CHR ''_''" "set n", OF u])
  finally show ?thesis .
qed

section \<open>Evaluating a run\<close>

lemmas run_defs = str_nat.simps two_in_cats_def init_server_def register_client_def dispatch_def
  handle_join_def handle_msg_def handle_nick_def handle_leave_def handle_list_def
  disconnect_client_def broadcast_to_channel_def
  acquire_def release_def send_message_def send_error_def current_channel_def leave_channel_def
  cmd_join_def cmd_msg_def cmd_nick_def cmd_leave_def startswith_hash_def strip_def isspace_char_def
  isalnum_def isalnum_char_def remove_underscores_def events_named_def
  resp_ok_def resp_error_def resp_connected_def evt_message_def evt_user_joined_def evt_user_left_def
  dict_update_def
  Let_def List.insert_def

lemma cats_state_reached:
  "(state_of (run 6667 now init_server two_in_cats))\<lparr>trace := []\<rparr> = cats_state"
  by (simp add: run_defs cats_state_def)

section \<open>Broadcasting\<close>

lemma fold_send:
  "fold (\<lambda>client_socket s. if Some client_socket \<noteq> ex then send_message s client_socket msg else s) ms st
   = st\<lparr>trace := trace st @ map (\<lambda>m. Send m msg) (filter (\<lambda>m. Some m \<noteq> ex) ms)\<rparr>"
  by (induction ms arbitrary: st) (auto simp: send_message_def)

lemma broadcast_unlocked:
  "\<not> locked st \<Longrightarrow>
   broadcast_to_channel st channel msg ex =
     Returns (st\<lparr>trace := trace st @ [Acquire] @
        map (\<lambda>m. Send m msg)
          (filter (\<lambda>m. Some m \<noteq> ex) (case map_of (channels st) channel of None \<Rightarrow> [] | Some ms \<Rightarrow> ms))
        @ [Release]\<rparr>)"
  by (auto simp: broadcast_to_channel_def acquire_def release_def fold_send Let_def split: option.splits)

lemma writes_under_lock_sends:
  "writes_under_lock True (map (\<lambda>m. Send m msg) ms @ es) =
     map (\<lambda>m. (m, msg)) ms @ writes_under_lock True es"
  by (induction ms) auto

text \<open>
  C9 (as amended). For every broadcast to a channel, the members are read from the
  registry while the lock is held, and every socket write of the broadcast happens while
  the lock is still held: the events of a broadcast are the acquisition, one write for each
  member other than the excluded one, and then the release.
\<close>

theorem broadcast_writes_under_lock:
  assumes "\<not> locked st"
  shows "\<exists>es. broadcast_to_channel st channel msg ex = Returns (st\<lparr>trace := trace st @ es\<rparr>)
           \<and> es = [Acquire] @
               map (\<lambda>m. Send m msg)
                 (filter (\<lambda>m. Some m \<noteq> ex)
                    (case map_of (channels st) channel of None \<Rightarrow> [] | Some ms \<Rightarrow> ms)) @
               [Release]
           \<and> writes_under_lock False es =
               map (\<lambda>m. (m, msg))
                 (filter (\<lambda>m. Some m \<noteq> ex)
                    (case map_of (channels st) channel of None \<Rightarrow> [] | Some ms \<Rightarrow> ms))"
  using assms by (simp add: broadcast_unlocked writes_under_lock_sends)

theorem broadcast_writes_under_lock_witness:
  "broadcast_to_channel cats_state ''#cats'' (evt_user_left (JStr ''#cats'') (JStr ''x'')) None =
     Returns (cats_state\<lparr>trace :=
        [Acquire,
         Send 1 (evt_user_left (JStr ''#cats'') (JStr ''x'')),
         Send 2 (evt_user_left (JStr ''#cats'') (JStr ''x'')),
         Release]\<rparr>)
   \<and> writes_under_lock False
        [Acquire,
         Send 1 (evt_user_left (JStr ''#cats'') (JStr ''x'')),
         Send 2 (evt_user_left (JStr ''#cats'') (JStr ''x'')),
         Release]
       = [(1, evt_user_left (JStr ''#cats'') (JStr ''x'')),
          (2, evt_user_left (JStr ''#cats'') (JStr ''x''))]"
  using broadcast_writes_under_lock [of cats_state "''#cats''"
      "evt_user_left (JStr ''#cats'') (JStr ''x'')" None]
  by (simp add: cats_state_def)

text \<open>
  C9 as stated fails: when client 1 joins \<open>#cats\<close> after client 2, the write of the
  \<open>user_joined\<close> event to client 2 is made while the lock is held.
\<close>

theorem join_broadcast_write_under_lock:
  "writes_under_lock False (trace (state_of (run 6667 (JInt 7) init_server two_in_cats)))
   = [(2, evt_user_joined (JStr ''#cats'') (JStr ''user_5001''))]"
  by (simp add: run_defs)

section \<open>Chat messages\<close>

text \<open>
  C10. For every session and every \<open>msg\<close> command whose payload is a mapping in which
  \<open>text\<close> is absent, empty or made of whitespace only, the server sends nothing, neither
  a response nor a broadcast, and leaves the registries as they are: the state returned is
  the state given.
\<close>

theorem msg_blank_text_silent:
  assumes "msg_type msg = COMMAND" and "msg_name msg = JStr ''msg''"
    and "msg_data msg = JDict kvs"
    and "map_of kvs ''text'' = None \<or> (\<exists>t. map_of kvs ''text'' = Some (JStr t) \<and> list_all isspace_char t)"
  shows "dispatch now st s msg = Returns st"
  using assms
  by (auto simp: dispatch_def handle_msg_def strip_empty_iff split: option.splits)

theorem msg_blank_text_silent_witness:
  "dispatch (JInt 7) cats_state 1 (cmd_msg (JStr [CHR '' '', CHR 0x09]) JNull) = Returns cats_state"
  using msg_blank_text_silent [of "cmd_msg (JStr [CHR '' '', CHR 0x09]) JNull"
      "[(''text'', JStr [CHR '' '', CHR 0x09])]" "JInt 7" cats_state 1]
  by (simp add: cmd_msg_def isspace_char_def)

text \<open>
  C2 (as amended). For every channel \<open>c\<close> that session \<open>a\<close> has joined, when \<open>a\<close>
  sends a \<open>msg\<close> command with text \<open>t\<close> (not blank) for \<open>c\<close>, every member of \<open>c\<close>,
  the sender \<open>a\<close> included, is sent one \<open>message\<close> event with channel \<open>c\<close>, the nickname
  of \<open>a\<close> as \<open>from\<close> and \<open>t\<close> without its surrounding whitespace as text; nothing
  else is sent and the registries do not change.
\<close>

theorem msg_reaches_every_member:
  assumes "msg_type msg = COMMAND" and "msg_name msg = JStr ''msg''"
    and "msg_data msg = JDict kvs"
    and "map_of kvs ''text'' = Some (JStr t)" and "strip t \<noteq> []"
    and "map_of kvs ''channel'' = Some (JStr c)" and "c \<noteq> []"
    and "\<not> locked st"
    and "map_of (clients st) a = Some info" and "c \<in> set (ci_channels info)"
    and "map_of (channels st) c = Some members"
  shows "dispatch now st a msg =
           Returns (st\<lparr>trace := trace st @ [Acquire, Release, Acquire] @
              map (\<lambda>m. Send m (evt_message (JStr c) (JStr (ci_nickname info))
                                   (JStr (strip t)) JNull now)) members @
              [Release]\<rparr>)"
  using assms
  by (simp add: dispatch_def handle_msg_def current_channel_def acquire_def release_def
      broadcast_unlocked Let_def)

theorem msg_reaches_every_member_witness:
  "dispatch (JInt 7) cats_state 1 (cmd_msg (JStr '' hi'') (JStr ''#cats'')) =
     Returns (cats_state\<lparr>trace :=
        [Acquire, Release, Acquire,
         Send 1 (evt_message (JStr ''#cats'') (JStr ''user_5001'') (JStr ''hi'') JNull (JInt 7)),
         Send 2 (evt_message (JStr ''#cats'') (JStr ''user_5001'') (JStr ''hi'') JNull (JInt 7)),
         Release]\<rparr>)"
  using msg_reaches_every_member [of "cmd_msg (JStr '' hi'') (JStr ''#cats'')"
      "[(''text'', JStr '' hi''), (''channel'', JStr ''#cats'')]" "'' hi''" "''#cats''"
      cats_state 1
      "\<lparr>ci_nickname = ''user_5001'', ci_channels = [''#cats''],
               ci_address = (''10.0.0.1'', 5001)\<rparr>" "[1, 2]" "JInt 7"]
  by (simp add: cmd_msg_def strip_def isspace_char_def cats_state_def)

text \<open>
  C2 as stated fails: with clients 1 and 2 in \<open>#cats\<close>, client 1 sends \<open>hi\<close> and is sent
  its own \<open>message\<close> event.
\<close>

theorem msg_echoed_to_sender:
  "events_named ''message''
     (sent_to 1 (trace (state_of (run 6667 (JInt 7) init_server
        (two_in_cats @ [Command 1 (cmd_msg (JStr ''hi'') JNull)])))))
   = [evt_message (JStr ''#cats'') (JStr ''user_5001'') (JStr ''hi'') JNull (JInt 7)]"
  by (simp add: run_defs)

section \<open>Joining\<close>

text \<open>
  C5 (as amended). For every session and every channel-name string that, once its
  surrounding whitespace is removed, is empty, does not start with \<open>#\<close> or is shorter than
  2, the \<open>join\<close> command is answered with the error \<open>Invalid channel name\<close> and the
  registries do not change.
\<close>

theorem join_invalid_channel_name:
  assumes "msg_type msg = COMMAND" and "msg_name msg = JStr ''join''"
    and "msg_data msg = JDict kvs" and "map_of kvs ''channel'' = Some (JStr name)"
    and "strip name = [] \<or> \<not> startswith_hash (strip name) \<or> length (strip name) < 2"
  shows "dispatch now st s msg =
           Returns (st\<lparr>trace := trace st @
              [Send s (resp_error (JStr ''join'') (JStr ''Invalid channel name'') None)]\<rparr>)"
  using assms
  by (auto simp: dispatch_def handle_join_def send_error_def send_message_def)

theorem join_invalid_channel_name_witness:
  "dispatch (JInt 7) cats_state 1 (cmd_join (JStr ''cats'')) =
     Returns (cats_state\<lparr>trace :=
        [Send 1 (resp_error (JStr ''join'') (JStr ''Invalid channel name'') None)]\<rparr>)"
  using join_invalid_channel_name [of "cmd_join (JStr ''cats'')" "[(''channel'', JStr ''cats'')]"
      "''cats''" "JInt 7" cats_state 1]
  by (simp add: cmd_join_def strip_def isspace_char_def startswith_hash_def cats_state_def)

text \<open>
  C5 as stated fails: the name \<open>" #a"\<close> does not start with \<open>#\<close>, yet the join succeeds
  and creates the channel \<open>#a\<close>.
\<close>

theorem join_leading_space_accepted:
  "\<not> startswith_hash '' #a'' \<and>
   returns (run 6667 (JInt 7) init_server
      [Connect 1 (''10.0.0.1'', 5001), Command 1 (cmd_join (JStr '' #a''))]) \<and>
   channels (state_of (run 6667 (JInt 7) init_server
      [Connect 1 (''10.0.0.1'', 5001), Command 1 (cmd_join (JStr '' #a''))])) = [(''#a'', [1])]"
  by (simp add: run_defs)

text \<open>
  C6 (as amended). For every session \<open>s\<close> that is already a member of channel \<open>c\<close>, a
  second join of \<open>c\<close> by \<open>s\<close> succeeds and leaves both registries unchanged; it sends
  the ok response to \<open>s\<close> and again one \<open>user_joined\<close> event to every other member of
  \<open>c\<close>.
\<close>

theorem join_again:
  assumes "msg_type msg = COMMAND" and "msg_name msg = JStr ''join''"
    and "msg_data msg = JDict kvs" and "map_of kvs ''channel'' = Some (JStr name)"
    and "strip name = c" and "startswith_hash c" and "2 \<le> length c"
    and "\<not> locked st"
    and "map_of (clients st) s = Some info" and "c \<in> set (ci_channels info)"
    and "map_of (channels st) c = Some members" and "s \<in> set members"
  shows "dispatch now st s msg =
           Returns (st\<lparr>trace := trace st @
              [Acquire, Release,
               Send s (resp_ok (JStr ''join'') (Some [(''channel'', JStr c)])),
               Acquire] @
              map (\<lambda>m. Send m (evt_user_joined (JStr c) (JStr (ci_nickname info))))
                  (filter (\<lambda>m. m \<noteq> s) members) @
              [Release]\<rparr>)"
proof -
  have c_ne: "c \<noteq> []" using assms(7) by auto
  have u1: "AList.update c members (channels st) = channels st"
    using assms(11) by (simp add: update_triv)
  have i1: "List.insert s members = members" using assms(12) by (simp add: List.insert_def)
  have i2: "info\<lparr>ci_channels := List.insert c (ci_channels info)\<rparr> = info"
    using assms(10) by (simp add: List.insert_def)
  have u2: "AList.update s info (clients st) = clients st"
    using assms(9) by (simp add: update_triv)
  show ?thesis
    using assms c_ne
    by (simp add: dispatch_def handle_join_def acquire_def release_def send_message_def
        u1 u2 i1 i2 broadcast_unlocked Let_def)
qed

theorem join_again_witness:
  "dispatch (JInt 7) cats_state 1 (cmd_join (JStr ''#cats '')) =
     Returns (cats_state\<lparr>trace :=
        [Acquire, Release,
         Send 1 (resp_ok (JStr ''join'') (Some [(''channel'', JStr ''#cats'')])),
         Acquire,
         Send 2 (evt_user_joined (JStr ''#cats'') (JStr ''user_5001'')),
         Release]\<rparr>)"
  using join_again [of "cmd_join (JStr ''#cats '')" "[(''channel'', JStr ''#cats '')]"
      "''#cats ''" "''#cats''" cats_state 1
      "\<lparr>ci_nickname = ''user_5001'', ci_channels = [''#cats''],
               ci_address = (''10.0.0.1'', 5001)\<rparr>" "[1, 2]" "JInt 7"]
  by (simp add: cmd_join_def strip_def isspace_char_def startswith_hash_def cats_state_def)

text \<open>
  C6 as stated fails: client 1 joins \<open>#cats\<close> twice and client 2 is sent the
  \<open>user_joined\<close> event twice.
\<close>

theorem join_again_rebroadcasts:
  "events_named ''user_joined''
     (sent_to 2 (trace (state_of (run 6667 (JInt 7) init_server
        (two_in_cats @ [Command 1 (cmd_join (JStr ''#cats''))])))))
   = [evt_user_joined (JStr ''#cats'') (JStr ''user_5001''),
      evt_user_joined (JStr ''#cats'') (JStr ''user_5001'')]"
  by (simp add: run_defs)

section \<open>Nicknames\<close>

lemma dispatch_nick:
  "msg_type msg = COMMAND \<Longrightarrow> msg_name msg = JStr ''nick'' \<Longrightarrow>
   dispatch now st s msg = handle_nick st s msg"
  by (simp add: dispatch_def)

lemma handle_nick_invalid:
  assumes "msg_data msg = JDict kvs" and "map_of kvs ''nickname'' = Some (JStr n)"
    and "strip n = [] \<or> 20 < length (strip n) \<or> \<not> isalnum (remove_underscores (strip n))"
  shows "handle_nick st s msg =
           Returns (st\<lparr>trace := trace st @
              [Send s (resp_error (JStr ''nick'') (JStr ''Invalid nickname format'') None)]\<rparr>)"
  using assms by (simp add: handle_nick_def send_error_def send_message_def)

lemma handle_nick_valid:
  assumes "msg_data msg = JDict kvs" and "map_of kvs ''nickname'' = Some (JStr n)"
    and "strip n \<noteq> []" and "\<not> 20 < length (strip n)" and "isalnum (remove_underscores (strip n))"
    and "\<not> locked st" and "map_of (clients st) s = Some info"
  shows "handle_nick st s msg =
           (if list_ex (\<lambda>(client, info). client \<noteq> s \<and> ci_nickname info = strip n) (clients st)
            then Returns (st\<lparr>trace := trace st @
                   [Acquire,
                    Send s (resp_error (JStr ''nick'') (JStr ''Nickname already in use'') None),
                    Release]\<rparr>)
            else Returns (st\<lparr>clients := AList.update s (info\<lparr>ci_nickname := strip n\<rparr>) (clients st),
                            trace := trace st @
                   [Acquire, Release,
                    Send s (resp_ok (JStr ''nick'') (Some [(''nickname'', JStr (strip n))]))]\<rparr>))"
  using assms
  by (simp add: handle_nick_def send_error_def send_message_def acquire_def release_def Let_def)

text \<open>
  C4 (as amended). The \<open>nick\<close> command first removes the whitespace around the string
  \<open>N\<close>. If what remains is empty, longer than 20 characters or contains a character that
  is neither a letter, a digit nor an underscore, the command is answered with the error
  \<open>Invalid nickname format\<close> and the nickname is unchanged. If what remains has at most 20
  characters, all letters, digits or underscores, among them a letter or a digit, then:
  when it is the nickname of another session the command is answered with the error
  \<open>Nickname already in use\<close> and the nickname is unchanged; otherwise the command succeeds
  and the nickname of the session becomes the stripped string.
\<close>

theorem nick_outcomes:
  assumes "msg_type msg = COMMAND" and "msg_name msg = JStr ''nick''"
    and "msg_data msg = JDict kvs" and "map_of kvs ''nickname'' = Some (JStr n)"
    and "\<not> locked st" and "map_of (clients st) s = Some info"
  shows "(strip n = [] \<or> 20 < length (strip n) \<or>
            (\<exists>c\<in>set (strip n). \<not> isalnum_char c \<and> c \<noteq> CHR ''_'')
          \<longrightarrow> dispatch now st s msg =
                Returns (st\<lparr>trace := trace st @
                   [Send s (resp_error (JStr ''nick'') (JStr ''Invalid nickname format'') None)]\<rparr>))
       \<and> (length (strip n) \<le> 20 \<and> (\<forall>c\<in>set (strip n). isalnum_char c \<or> c = CHR ''_'') \<and>
            (\<exists>c\<in>set (strip n). isalnum_char c)
          \<longrightarrow> dispatch now st s msg =
                (if \<exists>(s', info')\<in>set (clients st). s' \<noteq> s \<and> ci_nickname info' = strip n
                 then Returns (st\<lparr>trace := trace st @
                        [Acquire,
                         Send s (resp_error (JStr ''nick'') (JStr ''Nickname already in use'') None),
                         Release]\<rparr>)
                 else Returns (st\<lparr>clients := AList.update s (info\<lparr>ci_nickname := strip n\<rparr>) (clients st),
                                 trace := trace st @
                        [Acquire, Release,
                         Send s (resp_ok (JStr ''nick'') (Some [(''nickname'', JStr (strip n))]))]\<rparr>)))"
proof (intro conjI impI)
  assume "strip n = [] \<or> 20 < length (strip n) \<or>
            (\<exists>c\<in>set (strip n). \<not> isalnum_char c \<and> c \<noteq> CHR ''_'')"
  then have "strip n = [] \<or> 20 < length (strip n) \<or> \<not> isalnum (remove_underscores (strip n))"
    unfolding isalnum_remove_underscores using not_alnum_or_sep [of "set (strip n)" isalnum_char "CHR ''_''"]
    by argo
  from handle_nick_invalid [OF assms(3,4) this]
  show "dispatch now st s msg =
                Returns (st\<lparr>trace := trace st @
                   [Send s (resp_error (JStr ''nick'') (JStr ''Invalid nickname format'') None)]\<rparr>)"
    by (simp only: dispatch_nick [OF assms(1,2)])
next
  assume ok: "length (strip n) \<le> 20 \<and> (\<forall>c\<in>set (strip n). isalnum_char c \<or> c = CHR ''_'') \<and>
            (\<exists>c\<in>set (strip n). isalnum_char c)"
  then have f1: "isalnum (remove_underscores (strip n))"
    unfolding isalnum_remove_underscores by (elim conjE) (intro conjI)
  from ok have f2: "strip n \<noteq> []" by auto
  from ok have f3: "\<not> 20 < length (strip n)" by simp
  have ex: "list_ex (\<lambda>(client, info). client \<noteq> s \<and> ci_nickname info = strip n) (clients st)
        \<longleftrightarrow> (\<exists>(s', info')\<in>set (clients st). s' \<noteq> s \<and> ci_nickname info' = strip n)"
    by (simp add: list_ex_iff)
  from handle_nick_valid [OF assms(3,4) f2 f3 f1 assms(5,6)]
  show "dispatch now st s msg =
                (if \<exists>(s', info')\<in>set (clients st). s' \<noteq> s \<and> ci_nickname info' = strip n
                 then Returns (st\<lparr>trace := trace st @
                        [Acquire,
                         Send s (resp_error (JStr ''nick'') (JStr ''Nickname already in use'') None),
                         Release]\<rparr>)
                 else Returns (st\<lparr>clients := AList.update s (info\<lparr>ci_nickname := strip n\<rparr>) (clients st),
                                 trace := trace st @
                        [Acquire, Release,
                         Send s (resp_ok (JStr ''nick'') (Some [(''nickname'', JStr (strip n))]))]\<rparr>))"
    by (simp only: dispatch_nick [OF assms(1,2)] ex)
qed

theorem nick_outcomes_witness:
  "dispatch (JInt 7) cats_state 1 (cmd_nick (JStr ''bob!'')) =
     Returns (cats_state\<lparr>trace :=
        [Send 1 (resp_error (JStr ''nick'') (JStr ''Invalid nickname format'') None)]\<rparr>)
   \<and> dispatch (JInt 7) cats_state 1 (cmd_nick (JStr ''user_5002'')) =
     Returns (cats_state\<lparr>trace :=
        [Acquire,
         Send 1 (resp_error (JStr ''nick'') (JStr ''Nickname already in use'') None),
         Release]\<rparr>)
   \<and> dispatch (JInt 7) cats_state 1 (cmd_nick (JStr '' bob_1 '')) =
     Returns (cats_state\<lparr>clients :=
        [(1, \<lparr>ci_nickname = ''bob_1'', ci_channels = [''#cats''],
               ci_address = (''10.0.0.1'', 5001)\<rparr>),
         (2, \<lparr>ci_nickname = ''user_5002'', ci_channels = [''#cats''],
               ci_address = (''10.0.0.2'', 5002)\<rparr>)],
        trace :=
        [Acquire, Release,
         Send 1 (resp_ok (JStr ''nick'') (Some [(''nickname'', JStr ''bob_1'')]))]\<rparr>)"
proof -
  let ?info = "\<lparr>ci_nickname = ''user_5001'', ci_channels = [''#cats''],
               ci_address = (''10.0.0.1'', 5001)\<rparr>"
  have a: "dispatch (JInt 7) cats_state 1 (cmd_nick (JStr ''bob!'')) =
     Returns (cats_state\<lparr>trace :=
        [Send 1 (resp_error (JStr ''nick'') (JStr ''Invalid nickname format'') None)]\<rparr>)"
    using nick_outcomes [of "cmd_nick (JStr ''bob!'')" "[(''nickname'', JStr ''bob!'')]" "''bob!''"
        cats_state 1 ?info "JInt 7"]
    by (simp add: cmd_nick_def strip_def isspace_char_def isalnum_char_def cats_state_def)
  have b: "dispatch (JInt 7) cats_state 1 (cmd_nick (JStr ''user_5002'')) =
     Returns (cats_state\<lparr>trace :=
        [Acquire,
         Send 1 (resp_error (JStr ''nick'') (JStr ''Nickname already in use'') None),
         Release]\<rparr>)"
    using nick_outcomes [of "cmd_nick (JStr ''user_5002'')" "[(''nickname'', JStr ''user_5002'')]"
        "''user_5002''" cats_state 1 ?info "JInt 7"]
    by (simp add: cmd_nick_def strip_def isspace_char_def isalnum_char_def cats_state_def)
  have c: "dispatch (JInt 7) cats_state 1 (cmd_nick (JStr '' bob_1 '')) =
     Returns (cats_state\<lparr>clients :=
        [(1, \<lparr>ci_nickname = ''bob_1'', ci_channels = [''#cats''],
               ci_address = (''10.0.0.1'', 5001)\<rparr>),
         (2, \<lparr>ci_nickname = ''user_5002'', ci_channels = [''#cats''],
               ci_address = (''10.0.0.2'', 5002)\<rparr>)],
        trace :=
        [Acquire, Release,
         Send 1 (resp_ok (JStr ''nick'') (Some [(''nickname'', JStr ''bob_1'')]))]\<rparr>)"
    using nick_outcomes [of "cmd_nick (JStr '' bob_1 '')" "[(''nickname'', JStr '' bob_1 '')]"
        "'' bob_1 ''" cats_state 1 ?info "JInt 7"]
    by (simp add: cmd_nick_def strip_def isspace_char_def isalnum_char_def cats_state_def)
  from a b c show ?thesis by (intro conjI)
qed

text \<open>
  C4 as stated fails: \<open>" bob"\<close> contains a space, yet the command succeeds and the
  nickname becomes \<open>bob\<close>.
\<close>

theorem nick_strips_whitespace:
  "\<not> list_all (\<lambda>c. isalnum_char c \<or> c = CHR ''_'') '' bob'' \<and>
   map (\<lambda>p. ci_nickname (snd p)) (clients (state_of (run 6667 (JInt 7) init_server
      [Connect 1 (''10.0.0.1'', 5001), Command 1 (cmd_nick (JStr '' bob''))]))) = [''bob'']"
  by (simp add: run_defs)

section \<open>Channels are never empty\<close>

text \<open>
  Every step that returns keeps the registry free of empty channels: a join adds a
  member, a leave deletes the channel it empties, the other commands do not touch the
  registry, and a cleanup returns only when it had no channel to leave.
\<close>

lemma in_update: "p \<in> set (AList.update k v al) \<Longrightarrow> p = (k, v) \<or> p \<in> set al"
  by (induction al) (auto split: if_splits)

lemma in_delete: "p \<in> set (AList.delete k al) \<Longrightarrow> p \<in> set al \<and> fst p \<noteq> k"
  by (induction al) (auto split: if_splits)

lemma update_appended:
  "map_of al k = None \<Longrightarrow> AList.update k v (al @ [(k, w)]) = al @ [(k, v)]"
  by (induction al) (auto split: if_splits)

lemma broadcast_channels:
  assumes "broadcast_to_channel st c m ex = Returns st'"
  shows "channels st' = channels st \<and> clients st' = clients st \<and> locked st' = locked st"
proof (cases "locked st")
  case True
  then show ?thesis using assms by (simp add: broadcast_to_channel_def)
next
  case False
  then show ?thesis using assms broadcast_unlocked [OF False, of c m ex] by auto
qed

lemma nonempty_update:
  assumes "list_all (\<lambda>p. snd p \<noteq> []) al" and "v \<noteq> []"
  shows "list_all (\<lambda>p. snd p \<noteq> []) (AList.update k v al)"
  using assms in_update [of _ k v al] by (fastforce simp: list_all_iff)

lemma insert_nonempty: "List.insert s ms \<noteq> []"
  by (cases "s \<in> set ms") auto

lemma join_channels_nonempty:
  assumes "handle_join st s msg = Returns st'" and "channels_nonempty st"
  shows "channels_nonempty st'"
proof -
  have a: "\<And>c v. v \<noteq> [] \<Longrightarrow> list_all (\<lambda>p. snd p \<noteq> []) (AList.update c v (channels st))"
    using assms(2) by (intro nonempty_update) (simp_all add: channels_nonempty_def)
  have b: "\<And>c v w. v \<noteq> [] \<Longrightarrow> map_of (channels st) c = None \<Longrightarrow>
      list_all (\<lambda>p. snd p \<noteq> []) (AList.update c v (channels st @ [(c, w)]))"
    using assms(2) by (simp add: update_appended channels_nonempty_def)
  show ?thesis
    using assms a b
    by (auto simp: handle_join_def channels_nonempty_def send_error_def send_message_def
        acquire_def release_def Let_def insert_nonempty
        split: sum.splits if_splits option.splits dest!: broadcast_channels)
qed

lemma nonempty_delete:
  assumes "list_all (\<lambda>p. snd p \<noteq> []) al"
  shows "list_all (\<lambda>p. snd p \<noteq> []) (AList.delete k (AList.update k v al))"
  using assms in_update [of _ k v al] in_delete [of _ k "AList.update k v al"]
  by (fastforce simp: list_all_iff)

lemma leave_channel_nonempty:
  assumes "list_all (\<lambda>p. snd p \<noteq> []) (channels st)"
  shows "list_all (\<lambda>p. snd p \<noteq> []) (channels (leave_channel st s info c members))"
proof (cases "removeAll s members = []")
  case True
  then show ?thesis
    using nonempty_delete [of "channels st" c "[]"] assms
    by (simp add: leave_channel_def Let_def)
next
  case False
  then show ?thesis
    using nonempty_update [of "channels st" "removeAll s members" c] assms
    by (simp add: leave_channel_def Let_def)
qed

lemma leave_channels_nonempty:
  assumes "handle_leave st s msg = Returns st'" and "channels_nonempty st"
  shows "channels_nonempty st'"
  using assms
  by (auto simp: handle_leave_def channels_nonempty_def send_error_def send_message_def
      acquire_def release_def Let_def
      split: sum.splits if_splits option.splits dest!: broadcast_channels
      intro!: leave_channel_nonempty)

lemma nick_channels:
  "handle_nick st s msg = Returns st' \<Longrightarrow> channels st' = channels st"
  by (auto simp: handle_nick_def send_error_def send_message_def acquire_def release_def Let_def
      split: sum.splits if_splits option.splits)

lemma list_channels:
  "handle_list st s msg = Returns st' \<Longrightarrow> channels st' = channels st"
  by (auto simp: handle_list_def send_message_def acquire_def release_def Let_def
      split: if_splits)

lemma msg_channels:
  "handle_msg now st s msg = Returns st' \<Longrightarrow> channels st' = channels st"
  by (auto simp: handle_msg_def send_error_def send_message_def acquire_def release_def Let_def
      split: sum.splits if_splits option.splits dest!: broadcast_channels)

lemma help_quit_channels:
  "handle_help st s msg = Returns st' \<Longrightarrow> channels st' = channels st"
  "handle_quit st s msg = Returns st' \<Longrightarrow> channels st' = channels st"
  by (auto simp: handle_help_def handle_quit_def send_message_def split: sum.splits)

lemma register_channels:
  "register_client port st s address = Returns st' \<Longrightarrow> channels st' = channels st"
  by (auto simp: register_client_def send_message_def acquire_def release_def Let_def
      split: if_splits)

lemma disconnect_loop_locked:
  "locked st \<Longrightarrow> disconnect_loop st s nick cs = Returns st' \<Longrightarrow> st' = st"
  by (induction cs) (auto simp: broadcast_to_channel_def split: option.splits)

lemma disconnect_channels:
  "disconnect_client st s = Returns st' \<Longrightarrow> channels st' = channels st"
  by (auto simp: disconnect_client_def acquire_def release_def Let_def
      split: if_splits option.splits outcome.splits dest!: disconnect_loop_locked [rotated])

lemma dispatch_channels_nonempty:
  assumes "dispatch now st s msg = Returns st'" and "channels_nonempty st"
  shows "channels_nonempty st'"
proof -
  have same: "channels st' = channels st \<Longrightarrow> ?thesis"
    using assms(2) by (simp add: channels_nonempty_def)
  show ?thesis
    using assms same join_channels_nonempty [of st s msg st']
      leave_channels_nonempty [of st s msg st'] nick_channels [of st s msg st']
      list_channels [of st s msg st'] msg_channels [of now st s msg st']
      help_quit_channels [of st s msg st']
    by (auto simp: dispatch_def send_error_def send_message_def split: if_splits)
qed

lemma step_channels_nonempty:
  assumes "step port now st a = Returns st'" and "channels_nonempty st"
  shows "channels_nonempty st'"
proof (cases a)
  case (Connect s address)
  then show ?thesis
    using assms register_channels [of port st s address st'] by (simp add: channels_nonempty_def)
next
  case (Command s msg)
  then show ?thesis using assms dispatch_channels_nonempty [of now st s msg st'] by simp
next
  case (Disconnect s)
  then show ?thesis
    using assms disconnect_channels [of st s st'] by (simp add: channels_nonempty_def)
qed

lemma run_channels_nonempty:
  "run port now st as = Returns st' \<Longrightarrow> channels_nonempty st \<Longrightarrow> channels_nonempty st'"
proof (induction as arbitrary: st)
  case Nil
  then show ?case by simp
next
  case (Cons a as)
  then show ?case
    by (cases "step port now st a") (auto dest: step_channels_nonempty)
qed

lemma reachable_channels_nonempty:
  "run port now init_server as = Returns st \<Longrightarrow> channels_nonempty st"
  using run_channels_nonempty [of port now init_server as st]
  by (simp add: channels_nonempty_def init_server_def)

lemma leave_last_member:
  "removeAll s members = [] \<Longrightarrow>
   map_of (channels (leave_channel st s info c members)) c = None"
  by (simp add: leave_channel_def Let_def delete_conv)

section \<open>Disconnecting\<close>

text \<open>
  C3, at the input where the code departs from it. Client 1 is the only member of \<open>#x\<close>
  and disconnects. \<^verbatim>\<open>_disconnect_client\<close> removes it from the channel and then calls
  \<^verbatim>\<open>_broadcast_to_channel\<close> while it holds the lock: the call never returns, and the
  registry keeps the channel \<open>#x\<close> with no member.
\<close>

theorem disconnect_leaves_empty_channel:
  "blocks (run 6667 (JInt 7) init_server
      [Connect 1 (''10.0.0.1'', 5001), Command 1 (cmd_join (JStr ''#x'')), Disconnect 1]) \<and>
   channels (state_of (run 6667 (JInt 7) init_server
      [Connect 1 (''10.0.0.1'', 5001), Command 1 (cmd_join (JStr ''#x'')), Disconnect 1]))
     = [(''#x'', [])]"
  by (simp add: run_defs)

text \<open>
  C7, at the input where the code departs from it. Clients 1 and 2 are both in \<open>#cats\<close>
  and \<open>#dogs\<close>, and client 1 disconnects. The cleanup blocks on the lock it already
  holds: client 2 is sent no \<open>user_left\<close> event, client 1 stays in the session registry
  and in \<open>#cats\<close>, and the lock is never released.
\<close>

theorem disconnect_blocks:
  "blocks (run 6667 (JInt 7) init_server
      (two_in_cats @ [Command 2 (cmd_join (JStr ''#dogs'')), Command 1 (cmd_join (JStr ''#dogs'')), Disconnect 1])) \<and>
   events_named ''user_left'' (sent_to 2 (trace (state_of (run 6667 (JInt 7) init_server
      (two_in_cats @ [Command 2 (cmd_join (JStr ''#dogs'')), Command 1 (cmd_join (JStr ''#dogs'')), Disconnect 1]))))) = [] \<and>
   map fst (clients (state_of (run 6667 (JInt 7) init_server
      (two_in_cats @ [Command 2 (cmd_join (JStr ''#dogs'')), Command 1 (cmd_join (JStr ''#dogs'')), Disconnect 1])))) = [1, 2] \<and>
   channels (state_of (run 6667 (JInt 7) init_server
      (two_in_cats @ [Command 2 (cmd_join (JStr ''#dogs'')), Command 1 (cmd_join (JStr ''#dogs'')), Disconnect 1])))
     = [(''#cats'', [1, 2]), (''#dogs'', [2])] \<and>
   locked (state_of (run 6667 (JInt 7) init_server
      (two_in_cats @ [Command 2 (cmd_join (JStr ''#dogs'')), Command 1 (cmd_join (JStr ''#dogs'')), Disconnect 1])))"
  by (simp add: run_defs)

end
